theory Spec2Isabelle
  imports Main "HOL-Library.Word" "HOL-Library.Multiset"
begin


section \<open>Data model of req.go\<close>

datatype RequirementLevel = SYSTEM | HIGH | LOW | CODE

text \<open>The levels are Go's \<open>iota\<close> constants 0..3; \<open>levelNum\<close> is that number.\<close>

fun levelNum :: "RequirementLevel \<Rightarrow> nat" where
  "levelNum SYSTEM = 0"
| "levelNum HIGH = 1"
| "levelNum LOW = 2"
| "levelNum CODE = 3"

datatype RequirementStatus = NOT_STARTED | STARTED | COMPLETED

text \<open>
  \<open>Req\<close> is the struct of the same name. A \<open>*Req\<close> is modelled by the key under which
  the graph holds the object: \<open>reqGraph\<close> is \<open>map[string]*Req\<close>, every \<open>Req\<close> is created
  by \<open>AddReq\<close> or \<open>AddCodeRefs\<close> and stored under exactly one key, and \<open>Resolve\<close> only ever
  appends pointers it has just read from the map. So the graph is at once the map and
  the store of the objects, and \<open>Parents\<close> and \<open>Children\<close> are lists of keys.
\<close>

record Req =
  ID :: string
  Level :: RequirementLevel
  Path :: string
  FileHash :: string
  ParentIds :: "string list"
  Parents :: "string list"
  Children :: "string list"
  Body :: string
  Attributes :: "string \<rightharpoonup> string"
  Position :: int
  Seen :: bool
  Status :: RequirementStatus

type_synonym reqGraph = "string \<rightharpoonup> Req"

text \<open>
  Errors are kept as the call that builds them: \<open>Errorf format operands\<close> is
  \<open>fmt.Errorf(format, operands...)\<close>. \<open>Fatal operands\<close> is \<open>log.Fatal(operands...)\<close>, which
  ends the process.
\<close>

datatype error = Errorf string "arg list"
  and arg = Str string | Err error

datatype fatal = Fatal "arg list"

text \<open>
  The outcome of a recursive traversal run with a bound \<open>n\<close> on the depth of the
  recursion: \<open>OutOfFuel\<close> when the recursion goes deeper than \<open>n\<close> (a traversal that is
  \<open>OutOfFuel\<close> for every \<open>n\<close> never returns), \<open>Panic\<close> for a run-time panic (an index out
  of range, or a pointer that is not in the store), \<open>Return\<close> for a normal return.
\<close>

datatype 'a result = OutOfFuel | Panic | Return 'a

section \<open>Strings\<close>

definition HasPrefix :: "string \<Rightarrow> string \<Rightarrow> bool" where
  "HasPrefix s p = (take (length p) s = p)"

definition TrimPrefix :: "string \<Rightarrow> string \<Rightarrow> string" where
  "TrimPrefix s p = (if HasPrefix s p then drop (length p) s else s)"

text \<open>
  \<open>strings.TrimSpace\<close> removes leading and trailing runes for which \<open>unicode.IsSpace\<close>
  holds. A Go string is a byte sequence; \<open>spaceRunes\<close> lists the UTF-8 encodings of the
  white space runes: the six ASCII ones, U+0085, U+00A0, U+1680, U+2000 to U+200A,
  U+2028, U+2029, U+202F, U+205F and U+3000.
\<close>

definition spaceRunes :: "string list" where
  "spaceRunes =
    [[CHR 0x09], [CHR 0x0A], [CHR 0x0B], [CHR 0x0C], [CHR 0x0D], [CHR 0x20],
     [CHR 0xC2, CHR 0x85], [CHR 0xC2, CHR 0xA0],
     [CHR 0xE1, CHR 0x9A, CHR 0x80],
     [CHR 0xE2, CHR 0x80, CHR 0x80], [CHR 0xE2, CHR 0x80, CHR 0x81],
     [CHR 0xE2, CHR 0x80, CHR 0x82], [CHR 0xE2, CHR 0x80, CHR 0x83],
     [CHR 0xE2, CHR 0x80, CHR 0x84], [CHR 0xE2, CHR 0x80, CHR 0x85],
     [CHR 0xE2, CHR 0x80, CHR 0x86], [CHR 0xE2, CHR 0x80, CHR 0x87],
     [CHR 0xE2, CHR 0x80, CHR 0x88], [CHR 0xE2, CHR 0x80, CHR 0x89],
     [CHR 0xE2, CHR 0x80, CHR 0x8A],
     [CHR 0xE2, CHR 0x80, CHR 0xA8], [CHR 0xE2, CHR 0x80, CHR 0xA9],
     [CHR 0xE2, CHR 0x80, CHR 0xAF],
     [CHR 0xE2, CHR 0x81, CHR 0x9F],
     [CHR 0xE3, CHR 0x80, CHR 0x80]]"

text \<open>The number of bytes of the white space rune \<open>s\<close> starts with; 0 when it starts with none.\<close>

definition spaceLen :: "string list \<Rightarrow> string \<Rightarrow> nat" where
  "spaceLen runes s = (case find (HasPrefix s) runes of None \<Rightarrow> 0 | Some e \<Rightarrow> length e)"

text \<open>Each step drops one rune, so \<open>length s\<close> steps are enough.\<close>

primrec trimRunes :: "string list \<Rightarrow> nat \<Rightarrow> string \<Rightarrow> string" where
  "trimRunes runes 0 s = s"
| "trimRunes runes (Suc n) s =
     (if spaceLen runes s = 0 then s else trimRunes runes n (drop (spaceLen runes s) s))"

definition TrimLeftSpace :: "string \<Rightarrow> string" where
  "TrimLeftSpace s = trimRunes spaceRunes (length s) s"

text \<open>
  The last rune of a string is a white space rune exactly when the string ends with its
  encoding, so the right trim is the left trim of the reversed bytes.
\<close>

definition TrimRightSpace :: "string \<Rightarrow> string" where
  "TrimRightSpace s = rev (trimRunes (map rev spaceRunes) (length s) (rev s))"

definition TrimSpace :: "string \<Rightarrow> string" where
  "TrimSpace s = TrimRightSpace (TrimLeftSpace s)"

text \<open>\<open>strings.Split(s, "\n")[0]\<close>: the bytes before the first newline.\<close>

definition firstLine :: "string \<Rightarrow> string" where
  "firstLine s = takeWhile (\<lambda>c. c \<noteq> CHR 0x0A) s"

definition Title :: "Req \<Rightarrow> string" where
  "Title r = TrimSpace (firstLine (Body r))"

definition IsDeleted :: "Req \<Rightarrow> bool" where
  "IsDeleted r = HasPrefix (Title r) ''DELETED''"

text \<open>
  \<open>BodyWithoutTitle\<close>: \<open>strings.SplitN(r.Body, "\n", 2)\<close> has two fields exactly when the
  body has a newline; the second field is what follows the first newline.
\<close>

definition BodyWithoutTitle :: "Req \<Rightarrow> fatal + string" where
  "BodyWithoutTitle r =
     (if CHR 0x0A \<in> set (Body r)
      then Inr (tl (dropWhile (\<lambda>c. c \<noteq> CHR 0x0A) (Body r)))
      else Inl (Fatal [Str ''No valid title in body of requirement with id: '', Str (ID r)]))"

section \<open>Status propagation\<close>

text \<open>The \<open>for _, p := range r.Parents\<close> loop of \<open>resolveUp\<close>.\<close>

primrec forEach :: "(string \<Rightarrow> reqGraph \<Rightarrow> reqGraph result) \<Rightarrow> string list \<Rightarrow> reqGraph \<Rightarrow> reqGraph result"
  where
  "forEach f [] g = Return g"
| "forEach f (x # xs) g =
     (case f x g of
        Return g' \<Rightarrow> forEach f xs g'
      | OutOfFuel \<Rightarrow> OutOfFuel
      | Panic \<Rightarrow> Panic)"

primrec resolveUp :: "nat \<Rightarrow> string \<Rightarrow> reqGraph \<Rightarrow> reqGraph result" where
  "resolveUp 0 r g = OutOfFuel"
| "resolveUp (Suc n) r g =
     (case g r of
        None \<Rightarrow> Panic
      | Some q \<Rightarrow> forEach (resolveUp n) (Parents q) (g(r \<mapsto> q\<lparr>Seen := True\<rparr>)))"

definition setStatus :: "string \<Rightarrow> RequirementStatus \<Rightarrow> reqGraph \<Rightarrow> reqGraph" where
  "setStatus r s g = (case g r of None \<Rightarrow> g | Some q \<Rightarrow> g(r \<mapsto> q\<lparr>Status := s\<rparr>))"

text \<open>
  The \<open>for _, c := range r.Children\<close> loop of \<open>resolveDown\<close>: every child is visited, and
  \<open>r.Status\<close> is set to \<open>STARTED\<close> after each child that does not return \<open>COMPLETED\<close>.
\<close>

primrec childrenLoop ::
  "(string \<Rightarrow> reqGraph \<Rightarrow> (RequirementStatus \<times> reqGraph) result) \<Rightarrow> string \<Rightarrow> string list \<Rightarrow>
     reqGraph \<Rightarrow> reqGraph result"
  where
  "childrenLoop f r [] g = Return g"
| "childrenLoop f r (c # cs) g =
     (case f c g of
        Return (s, g') \<Rightarrow>
          childrenLoop f r cs (if s \<noteq> COMPLETED then setStatus r STARTED g' else g')
      | OutOfFuel \<Rightarrow> OutOfFuel
      | Panic \<Rightarrow> Panic)"

primrec resolveDown :: "nat \<Rightarrow> string \<Rightarrow> reqGraph \<Rightarrow> (RequirementStatus \<times> reqGraph) result" where
  "resolveDown 0 r g = OutOfFuel"
| "resolveDown (Suc n) r g =
     (case g r of
        None \<Rightarrow> Panic
      | Some q \<Rightarrow>
          (let g1 = g(r \<mapsto> q\<lparr>Seen := True, Status := COMPLETED\<rparr>) in
           if Level q \<noteq> CODE \<and> length (Children q) = 0
           then Return (NOT_STARTED, setStatus r NOT_STARTED g1)
           else
             (case childrenLoop (resolveDown n) r (Children q) g1 of
                Return g2 \<Rightarrow>
                  (case g2 r of None \<Rightarrow> Panic | Some q2 \<Rightarrow> Return (Status q2, g2))
              | OutOfFuel \<Rightarrow> OutOfFuel
              | Panic \<Rightarrow> Panic)))"

section \<open>Linking\<close>

text \<open>
  Go iterates over a map in an order that is not specified. Every \<open>for _, req := range rg\<close>
  loop is modelled with the order it takes as a parameter: a list \<open>ks\<close> of the keys of the
  map, each once. An entry the list names that the map does not hold is passed over.

  \<open>linkParent k parentId\<close> is the body of the inner loop of \<open>Resolve\<close> (lines 393 to 410) for
  the node stored under \<open>k\<close>; \<open>linkReq k\<close> is the body of the outer loop.
\<close>

fun linkParent :: "string \<Rightarrow> string \<Rightarrow> string \<times> reqGraph \<Rightarrow> string \<times> reqGraph" where
  "linkParent k parentId (errorResult, rg) =
     (case rg k of
        None \<Rightarrow> (errorResult, rg)
      | Some req \<Rightarrow>
          (case rg parentId of
             Some parent \<Rightarrow>
               (let errorResult1 =
                      (if IsDeleted parent \<and> \<not> IsDeleted req
                       then (if Level req \<noteq> CODE
                             then errorResult @ ''Invalid parent of requirement '' @ ID req @ '': ''
                                    @ parentId @ '' is deleted.\<newline>''
                             else errorResult @ ''Invalid reference in file '' @ Path req @ '': ''
                                    @ parentId @ '' is deleted.\<newline>'')
                       else errorResult);
                    rg1 = rg(parentId \<mapsto> parent\<lparr>Children := Children parent @ [k]\<rparr>);
                    rg2 = (case rg1 k of
                             None \<Rightarrow> rg1
                           | Some req1 \<Rightarrow> rg1(k \<mapsto> req1\<lparr>Parents := Parents req1 @ [parentId]\<rparr>))
                in (errorResult1, rg2))
           | None \<Rightarrow>
               (if Level req \<noteq> CODE
                then (errorResult @ ''Invalid parent of requirement '' @ ID req @ '': ''
                        @ parentId @ '' does not exist.\<newline>'', rg)
                else (errorResult @ ''Invalid reference in file '' @ Path req @ '': ''
                        @ parentId @ '' does not exist.\<newline>'', rg))))"

fun linkReq :: "string \<Rightarrow> string \<times> reqGraph \<Rightarrow> string \<times> reqGraph" where
  "linkReq k (errorResult, rg) =
     (case rg k of
        None \<Rightarrow> (errorResult, rg)
      | Some req \<Rightarrow>
          fold (linkParent k) (ParentIds req)
            (if length (ParentIds req) = 0 \<and> Level req \<noteq> SYSTEM
             then errorResult @ ''Requirement '' @ ID req @ '' in file '' @ Path req
                    @ '' has no parents.\<newline>''
             else errorResult, rg))"

definition link :: "string list \<Rightarrow> reqGraph \<Rightarrow> string \<times> reqGraph" where
  "link ks rg = fold linkReq ks ([], rg)"

section \<open>Resolve\<close>

text \<open>The body of the loop over the \<open>SYSTEM\<close> nodes (lines 419 to 423).\<close>

definition downStep :: "nat \<Rightarrow> string \<Rightarrow> reqGraph \<Rightarrow> reqGraph result" where
  "downStep n k g =
     (case g k of
        None \<Rightarrow> Return g
      | Some req \<Rightarrow>
          if Level req = SYSTEM
          then (case resolveDown n k g of
                  Return (s, g') \<Rightarrow> Return g'
                | OutOfFuel \<Rightarrow> OutOfFuel
                | Panic \<Rightarrow> Panic)
          else Return g)"

text \<open>
  \<open>sort.Sort(byPosition(xs))\<close> orders the pointers by the \<open>Position\<close> of the objects they
  point to. A pointer that is not in the store has no position; no execution has one, and
  the model reads 0 there.

  \<open>sort.Sort\<close> is a library function and is not stable: it is the parameter \<open>srt\<close>, which
  takes the key of the elements and the list. All that is known of it is \<open>isSort\<close>: the
  result has the elements of the list and is in nondecreasing order of the key.
\<close>

type_synonym sorter = "(string \<Rightarrow> int) \<Rightarrow> string list \<Rightarrow> string list"

definition isSort :: "sorter \<Rightarrow> bool" where
  "isSort srt = (\<forall>f xs. mset (srt f xs) = mset xs \<and> sorted (map f (srt f xs)))"

definition positionOf :: "reqGraph \<Rightarrow> string \<Rightarrow> int" where
  "positionOf g p = (case g p of None \<Rightarrow> 0 | Some q \<Rightarrow> Position q)"

definition byPosition :: "sorter \<Rightarrow> reqGraph \<Rightarrow> string list \<Rightarrow> string list" where
  "byPosition srt g xs = srt (positionOf g) xs"

text \<open>The body of the sorting loop (lines 425 to 428).\<close>

definition sortStep :: "sorter \<Rightarrow> string \<Rightarrow> reqGraph \<Rightarrow> reqGraph" where
  "sortStep srt k g =
     (case g k of
        None \<Rightarrow> g
      | Some req \<Rightarrow>
          (let g1 = g(k \<mapsto> req\<lparr>Parents := byPosition srt g (Parents req)\<rparr>) in
           case g1 k of
             None \<Rightarrow> g1
           | Some req1 \<Rightarrow> g1(k \<mapsto> req1\<lparr>Children := byPosition srt g1 (Children req1)\<rparr>)))"

text \<open>
  The body of the loop over the \<open>CODE\<close> nodes (lines 430 to 435); \<open>req.Parents[0]\<close> panics
  on an empty list.
\<close>

definition upStep :: "nat \<Rightarrow> string \<Rightarrow> reqGraph \<Rightarrow> reqGraph result" where
  "upStep n k g =
     (case g k of
        None \<Rightarrow> Return g
      | Some req \<Rightarrow>
          if Level req = CODE
          then (case resolveUp n k g of
                  Return g1 \<Rightarrow>
                    (case g1 k of
                       None \<Rightarrow> Panic
                     | Some req1 \<Rightarrow>
                         (case Parents req1 of
                            [] \<Rightarrow> Panic
                          | p # ps \<Rightarrow>
                              (case g1 p of
                                 None \<Rightarrow> Panic
                               | Some parent \<Rightarrow>
                                   Return (g1(k \<mapsto> req1\<lparr>Position := Position parent\<rparr>)))))
                | OutOfFuel \<Rightarrow> OutOfFuel
                | Panic \<Rightarrow> Panic)
          else Return g)"

definition downPass :: "nat \<Rightarrow> string list \<Rightarrow> reqGraph \<Rightarrow> reqGraph result" where
  "downPass n ks g = forEach (downStep n) ks g"

definition sortPass :: "sorter \<Rightarrow> string list \<Rightarrow> reqGraph \<Rightarrow> reqGraph" where
  "sortPass srt ks g = fold (sortStep srt) ks g"

definition upPass :: "nat \<Rightarrow> string list \<Rightarrow> reqGraph \<Rightarrow> reqGraph result" where
  "upPass n ks g = forEach (upStep n) ks g"

text \<open>
  Status propagation, the part of \<open>Resolve\<close> after the check of \<open>errorResult\<close> (lines 419
  to 436): the pass over the \<open>SYSTEM\<close> nodes, the sorting of the links and the pass over the
  \<open>CODE\<close> nodes, with the orders \<open>ks2\<close>, \<open>ks3\<close> and \<open>ks4\<close> of the three loops.
\<close>

definition statusPropagation ::
  "sorter \<Rightarrow> nat \<Rightarrow> string list \<Rightarrow> string list \<Rightarrow> string list \<Rightarrow> reqGraph \<Rightarrow> reqGraph result"
  where
  "statusPropagation srt n ks2 ks3 ks4 rg =
     (case downPass n ks2 rg of
        Return rg2 \<Rightarrow> upPass n ks4 (sortPass srt ks3 rg2)
      | OutOfFuel \<Rightarrow> OutOfFuel
      | Panic \<Rightarrow> Panic)"

text \<open>
  \<open>Resolve\<close>, with the sort \<open>srt\<close>, the bound \<open>n\<close> on the depth of the recursive traversals
  and the orders \<open>ks1\<close> to \<open>ks4\<close> of its four loops over the map. It returns the error
  (\<open>None\<close> for \<open>nil\<close>) and leaves the graph as the second component.
\<close>

definition Resolve ::
  "sorter \<Rightarrow> nat \<Rightarrow> string list \<Rightarrow> string list \<Rightarrow> string list \<Rightarrow> string list \<Rightarrow> reqGraph \<Rightarrow>
     (error option \<times> reqGraph) result"
  where
  "Resolve srt n ks1 ks2 ks3 ks4 rg =
     (case link ks1 rg of
        (errorResult, rg1) \<Rightarrow>
          if errorResult \<noteq> []
          then Return (Some (Errorf (errorResult @ ''\<newline>'') []), rg1)
          else
            (case statusPropagation srt n ks2 ks3 ks4 rg1 of
               Return rg4 \<Rightarrow> Return (None, rg4)
             | OutOfFuel \<Rightarrow> OutOfFuel
             | Panic \<Rightarrow> Panic))"

text \<open>\<open>DanglingReqsByPosition\<close>: the nodes that are not \<open>Seen\<close>, sorted by position.\<close>

definition DanglingReqsByPosition :: "sorter \<Rightarrow> string list \<Rightarrow> reqGraph \<Rightarrow> string list" where
  "DanglingReqsByPosition srt ks rg =
     byPosition srt rg (filter (\<lambda>k. case rg k of None \<Rightarrow> False | Some reg \<Rightarrow> \<not> Seen reg) ks)"

section \<open>Ingestion\<close>

text \<open>\<open>zeroReq\<close> is Go's zero value of \<open>Req\<close>: what a composite literal leaves in the fields it does not name.\<close>

definition zeroReq :: Req where
  "zeroReq = \<lparr>ID = [], Level = SYSTEM, Path = [], FileHash = [], ParentIds = [], Parents = [],
     Children = [], Body = [], Attributes = Map.empty, Position = 0, Seen = False,
     Status = NOT_STARTED\<rparr>"

text \<open>
  The fields of \<open>lyx.Req\<close> that req.go reads. The type, its method \<open>ReqType\<close> and
  \<open>git.RepoPath\<close> are declared outside req.go: \<open>AddReq\<close> takes the method and the
  repository path as its first two parameters.
\<close>

record lyxReq =
  lyxID :: string
  lyxParents :: "string list"
  lyxAttributes :: "string \<rightharpoonup> string"
  lyxPosition :: "32 word"

definition ReqTypeToReqLevel :: "string \<rightharpoonup> RequirementLevel" where
  "ReqTypeToReqLevel =
     [''SYS'' \<mapsto> SYSTEM, ''SWH'' \<mapsto> HIGH, ''HWH'' \<mapsto> HIGH, ''SWL'' \<mapsto> LOW, ''HWL'' \<mapsto> LOW]"

text \<open>
  \<open>AddReq\<close> returns the error (\<open>None\<close> for \<open>nil\<close>), the graph, and the record, whose
  attribute map it changes: the node shares that map, so \<open>delete(req.Attributes, "TEXT")\<close>
  removes the entry from the node's attributes too.
\<close>

definition AddReq ::
  "(lyxReq \<Rightarrow> string) \<Rightarrow> string \<Rightarrow> reqGraph \<Rightarrow> lyxReq \<Rightarrow> string \<Rightarrow>
     fatal + (error option \<times> reqGraph \<times> lyxReq)"
  where
  "AddReq ReqType RepoPath rg req path =
     (case rg (lyxID req) of
        Some v \<Rightarrow>
          Inr (Some (Errorf ''Requirement %s in %s already defined in %s''
                       [Str (lyxID req), Str path, Str (Path v)]), rg, req)
      | None \<Rightarrow>
          (case ReqTypeToReqLevel (ReqType req) of
             None \<Rightarrow> Inl (Fatal [Str ''Invalid request type '', Str (ReqType req)])
           | Some level \<Rightarrow>
               Inr (None,
                    rg(lyxID req \<mapsto>
                         zeroReq\<lparr>ID := lyxID req, Level := level, ParentIds := lyxParents req,
                           Path := TrimPrefix path RepoPath,
                           Body := (case lyxAttributes req ''TEXT'' of None \<Rightarrow> [] | Some t \<Rightarrow> t),
                           Attributes := (lyxAttributes req)(''TEXT'' := None),
                           Position := uint (lyxPosition req)\<rparr>),
                    req\<lparr>lyxAttributes := (lyxAttributes req)(''TEXT'' := None)\<rparr>)))"

definition AddCodeRefs :: "reqGraph \<Rightarrow> string \<Rightarrow> string \<Rightarrow> string \<Rightarrow> string list \<Rightarrow> reqGraph" where
  "AddCodeRefs rg ident fileName fileHash reqIds =
     rg(fileName \<mapsto> zeroReq\<lparr>ID := ident, Path := fileName, FileHash := fileHash,
                       ParentIds := reqIds, Level := CODE\<rparr>)"

text \<open>
  \<open>ParseLyx\<close>. The functions of package \<open>lyx\<close> and \<open>lintLyxReq\<close> are outside req.go and are
  parameters: \<open>IsValidDocName\<close> gives the error or \<open>None\<close>, \<open>ParseCertdoc\<close> the raw records
  or an error, \<open>ParseReq\<close> the record or an error, and \<open>lintLyxReq\<close> its errors and the
  \<open>isReqPresent\<close> slice it may have written to. \<open>parseLoop\<close> is the loop over the raw
  records, \<open>i\<close> the index of the first of \<open>vs\<close>; the value \<open>AddReq\<close> returns is dropped
  (line 659).
\<close>

fun parseLoop ::
  "('raw \<Rightarrow> error + lyxReq) \<Rightarrow> (string \<Rightarrow> nat \<Rightarrow> bool list \<Rightarrow> lyxReq \<Rightarrow> error list \<times> bool list) \<Rightarrow>
     (lyxReq \<Rightarrow> string) \<Rightarrow> string \<Rightarrow> string \<Rightarrow> nat \<Rightarrow> nat \<Rightarrow> 'raw list \<Rightarrow>
     bool list \<times> error list \<times> reqGraph \<Rightarrow> fatal + (error list \<times> reqGraph)"
  where
  "parseLoop ParseReq lintLyxReq ReqType RepoPath fileName len i [] (isReqPresent, errs, graph) =
     Inr (errs, graph)"
| "parseLoop ParseReq lintLyxReq ReqType RepoPath fileName len i (v # vs) (isReqPresent, errs, graph) =
     (case ParseReq v of
        Inl err \<Rightarrow>
          parseLoop ParseReq lintLyxReq ReqType RepoPath fileName len (Suc i) vs
            (isReqPresent, errs @ [err], graph)
      | Inr r \<Rightarrow>
          (case lintLyxReq fileName len isReqPresent r of
             (errs2, isReqPresent') \<Rightarrow>
               if length errs2 \<noteq> 0
               then parseLoop ParseReq lintLyxReq ReqType RepoPath fileName len (Suc i) vs
                      (isReqPresent', errs @ errs2, graph)
               else
                 (case AddReq ReqType RepoPath graph (r\<lparr>lyxPosition := of_nat i\<rparr>) fileName of
                    Inl f \<Rightarrow> Inl f
                  | Inr (e, graph', r') \<Rightarrow>
                      parseLoop ParseReq lintLyxReq ReqType RepoPath fileName len (Suc i) vs
                        (isReqPresent', errs, graph'))))"

definition ParseLyx ::
  "(string \<Rightarrow> error option) \<Rightarrow> (string \<Rightarrow> error + 'raw list) \<Rightarrow> ('raw \<Rightarrow> error + lyxReq) \<Rightarrow>
     (string \<Rightarrow> nat \<Rightarrow> bool list \<Rightarrow> lyxReq \<Rightarrow> error list \<times> bool list) \<Rightarrow>
     (lyxReq \<Rightarrow> string) \<Rightarrow> string \<Rightarrow> string \<Rightarrow> reqGraph \<Rightarrow> fatal + (error list \<times> reqGraph)"
  where
  "ParseLyx IsValidDocName ParseCertdoc ParseReq lintLyxReq ReqType RepoPath fileName graph =
     (case IsValidDocName fileName of
        Some err \<Rightarrow> Inr ([err], graph)
      | None \<Rightarrow>
          (case ParseCertdoc fileName of
             Inl err \<Rightarrow> Inr ([Errorf ''Error parsing %s: %v'' [Str fileName, Err err]], graph)
           | Inr reqs \<Rightarrow>
               parseLoop ParseReq lintLyxReq ReqType RepoPath fileName (length reqs) 0 reqs
                 (replicate (length reqs) False, [], graph)))"

section \<open>Attribute checks\<close>

text \<open>
  \<open>Req.CheckAttributes\<close>. A rule \<open>a\<close> of the schema is a \<open>map[string]string\<close>; it is
  modelled as the list of its entries in the order the \<open>range\<close> loop takes them, each key
  once, and \<open>a["name"]\<close> is the lookup in that list (the empty string when the key is
  absent). \<open>strings.ToUpper\<close> and \<open>regexp.Compile\<close> are library functions and are
  parameters: \<open>Compile v\<close> is the error or the compiled expression as its \<open>MatchString\<close>.
  An expression that does not compile ends the process (\<open>log.Fatal\<close>).
\<close>

definition lookupOrEmpty :: "(string \<times> string) list \<Rightarrow> string \<Rightarrow> string" where
  "lookupOrEmpty a k = (case map_of a k of None \<Rightarrow> [] | Some v \<Rightarrow> v)"

definition checkEntry ::
  "(string \<Rightarrow> string) \<Rightarrow> (string \<Rightarrow> error + (string \<Rightarrow> bool)) \<Rightarrow> Req \<Rightarrow> (string \<times> string) list \<Rightarrow>
     string \<times> string \<Rightarrow> error list \<Rightarrow> fatal + error list"
  where
  "checkEntry ToUpper Compile r a kv errs =
     (case kv of (k, v) \<Rightarrow>
        if k = ''name'' then
          (if Attributes r (ToUpper v) = None
           then (if \<not> (Level r = SYSTEM \<and> ToUpper v = ''PARENTS'')
                 then Inr (errs @ [Errorf ''Requirement '%s' is missing attribute '%s'.\<newline>''
                                     [Str (ID r), Str v]])
                 else Inr errs)
           else Inr errs)
        else if k = ''value'' then
          (let aName = ToUpper (lookupOrEmpty a ''name'') in
           case Attributes r aName of
             None \<Rightarrow> Inr errs
           | Some x \<Rightarrow>
               (case Compile v of
                  Inl err \<Rightarrow> Inl (Fatal [Err err])
                | Inr expr \<Rightarrow>
                    if \<not> expr x
                    then Inr (errs @ [Errorf ''Requirement '%s' has invalid value '%s' in attribute '%s'. Expected %s.\<newline>''
                                        [Str (ID r), Str x, Str aName, Str v]])
                    else Inr errs))
        else Inr errs)"

text \<open>A loop whose body may end the process: it stops at the first \<open>Inl\<close>.\<close>

primrec foldFatal :: "('a \<Rightarrow> 'b \<Rightarrow> fatal + 'b) \<Rightarrow> 'a list \<Rightarrow> 'b \<Rightarrow> fatal + 'b" where
  "foldFatal f [] s = Inr s"
| "foldFatal f (x # xs) s = (case f x s of Inl e \<Rightarrow> Inl e | Inr s' \<Rightarrow> foldFatal f xs s')"

definition Req_CheckAttributes ::
  "(string \<Rightarrow> string) \<Rightarrow> (string \<Rightarrow> error + (string \<Rightarrow> bool)) \<Rightarrow> Req \<Rightarrow>
     (string \<times> string) list list \<Rightarrow> fatal + error list"
  where
  "Req_CheckAttributes ToUpper Compile r as =
     foldFatal (\<lambda>a. foldFatal (checkEntry ToUpper Compile r a) a) as []"

text \<open>\<open>reqGraph.CheckAttributes\<close>, with the order \<open>ks\<close> of its loop over the map.\<close>

definition reqGraph_CheckAttributes ::
  "(string \<Rightarrow> string) \<Rightarrow> (string \<Rightarrow> error + (string \<Rightarrow> bool)) \<Rightarrow> string list \<Rightarrow> reqGraph \<Rightarrow>
     (string \<times> string) list list \<Rightarrow> fatal + error list"
  where
  "reqGraph_CheckAttributes ToUpper Compile ks rg as =
     foldFatal
       (\<lambda>k errs.
          case rg k of
            None \<Rightarrow> Inr errs
          | Some req \<Rightarrow>
              if Level req \<noteq> CODE
              then (case Req_CheckAttributes ToUpper Compile req as of
                      Inl f \<Rightarrow> Inl f
                    | Inr es \<Rightarrow> Inr (errs @ es))
              else Inr errs)
       ks []"

text \<open>
  The errors \<open>checkEntry\<close> appends for one entry of a rule when it does not end the
  process, and the errors of a node against a schema in the words of the
  specification; neither is in the source.
\<close>

definition missingAttributeError :: "Req \<Rightarrow> string \<Rightarrow> error" where
  "missingAttributeError r v =
     Errorf ''Requirement '%s' is missing attribute '%s'.\<newline>'' [Str (ID r), Str v]"

definition invalidValueError :: "Req \<Rightarrow> string \<Rightarrow> string \<Rightarrow> string \<Rightarrow> error" where
  "invalidValueError r x aName v =
     Errorf ''Requirement '%s' has invalid value '%s' in attribute '%s'. Expected %s.\<newline>''
       [Str (ID r), Str x, Str aName, Str v]"

definition entryErrors ::
  "(string \<Rightarrow> string) \<Rightarrow> (string \<Rightarrow> error + (string \<Rightarrow> bool)) \<Rightarrow> Req \<Rightarrow> (string \<times> string) list \<Rightarrow>
     string \<times> string \<Rightarrow> error list"
  where
  "entryErrors ToUpper Compile r a kv =
     (case kv of (k, v) \<Rightarrow>
        if k = ''name''
        then (if Attributes r (ToUpper v) = None \<and> \<not> (Level r = SYSTEM \<and> ToUpper v = ''PARENTS'')
              then [missingAttributeError r v] else [])
        else if k = ''value''
        then (case Attributes r (ToUpper (lookupOrEmpty a ''name'')) of
                None \<Rightarrow> []
              | Some x \<Rightarrow>
                  (case Compile v of
                     Inl err \<Rightarrow> []
                   | Inr expr \<Rightarrow>
                       if \<not> expr x
                       then [invalidValueError r x (ToUpper (lookupOrEmpty a ''name'')) v]
                       else []))
        else [])"

definition attributeErrors ::
  "(string \<Rightarrow> string) \<Rightarrow> (string \<Rightarrow> error + (string \<Rightarrow> bool)) \<Rightarrow> Req \<Rightarrow>
     (string \<times> string) list list \<Rightarrow> error set"
  where
  "attributeErrors ToUpper Compile r as =
     {missingAttributeError r v | a v.
        a \<in> set as \<and> (''name'', v) \<in> set a \<and> Attributes r (ToUpper v) = None
        \<and> \<not> (Level r = SYSTEM \<and> ToUpper v = ''PARENTS'')}
     \<union> {invalidValueError r x (ToUpper (lookupOrEmpty a ''name'')) v | a v x expr.
        a \<in> set as \<and> (''value'', v) \<in> set a
        \<and> Attributes r (ToUpper (lookupOrEmpty a ''name'')) = Some x
        \<and> Compile v = Inr expr \<and> \<not> expr x}"

section \<open>Reachability, and the status of a node as a function of its children\<close>

text \<open>
  The definitions of this section are not in the source: they say what the traversals
  compute, as functions of the graph they start from. \<open>childRel\<close> and \<open>parentRel\<close> are
  the resolved child and parent links, \<open>desc g r\<close> the nodes reached from \<open>r\<close> through child
  links (\<open>r\<close> among them) and \<open>anc g r\<close> the nodes reached from \<open>r\<close> through parent links.
\<close>

definition childRel :: "reqGraph \<Rightarrow> (string \<times> string) set" where
  "childRel g = {(a, b). \<exists>q. g a = Some q \<and> b \<in> set (Children q)}"

definition parentRel :: "reqGraph \<Rightarrow> (string \<times> string) set" where
  "parentRel g = {(a, b). \<exists>q. g a = Some q \<and> b \<in> set (Parents q)}"

definition desc :: "reqGraph \<Rightarrow> string \<Rightarrow> string set" where
  "desc g r = (childRel g)\<^sup>* `` {r}"

definition anc :: "reqGraph \<Rightarrow> string \<Rightarrow> string set" where
  "anc g r = (parentRel g)\<^sup>* `` {r}"

text \<open>
  \<open>computedStatus n g r\<close> is the status of \<open>r\<close> as a function of its children: \<open>NOT_STARTED\<close>
  for a node that is not a code node and has no children, otherwise \<open>COMPLETED\<close> if every
  child is \<open>COMPLETED\<close> and \<open>STARTED\<close> if not. It is \<open>None\<close> when the child links below \<open>r\<close>
  do not end within depth \<open>n\<close> or lead to a key that holds no node.
\<close>

primrec computedStatus :: "nat \<Rightarrow> reqGraph \<Rightarrow> string \<Rightarrow> RequirementStatus option" where
  "computedStatus 0 g r = None"
| "computedStatus (Suc n) g r =
     (case g r of
        None \<Rightarrow> None
      | Some q \<Rightarrow>
          if Level q \<noteq> CODE \<and> Children q = [] then Some NOT_STARTED
          else if \<exists>c \<in> set (Children q). computedStatus n g c = None then None
          else if \<forall>c \<in> set (Children q). computedStatus n g c = Some COMPLETED then Some COMPLETED
          else Some STARTED)"

text \<open>
  \<open>markDown n g D\<close> is \<open>g\<close> with the nodes of \<open>D\<close> marked \<open>Seen\<close> and given their computed
  status; \<open>markSeen g D\<close> is \<open>g\<close> with the nodes of \<open>D\<close> marked \<open>Seen\<close>.
\<close>

definition markDown :: "nat \<Rightarrow> reqGraph \<Rightarrow> string set \<Rightarrow> reqGraph" where
  "markDown n g D =
     (\<lambda>k. if k \<in> D
          then map_option (\<lambda>q. q\<lparr>Seen := True, Status := the (computedStatus n g k)\<rparr>) (g k)
          else g k)"

definition markSeen :: "reqGraph \<Rightarrow> string set \<Rightarrow> reqGraph" where
  "markSeen g D = (\<lambda>k. if k \<in> D then map_option (\<lambda>q. q\<lparr>Seen := True\<rparr>) (g k) else g k)"

text \<open>
  \<open>shape g\<close> is what the traversals depend on: the keys, the levels and the sets of
  resolved links. \<open>flags g\<close> is what they compute: \<open>Seen\<close> and \<open>Status\<close>.
\<close>

definition shape :: "reqGraph \<Rightarrow> string \<Rightarrow> (RequirementLevel \<times> string set \<times> string set) option" where
  "shape g = (\<lambda>k. map_option (\<lambda>q. (Level q, set (Children q), set (Parents q))) (g k))"

definition flags :: "reqGraph \<Rightarrow> string \<Rightarrow> (bool \<times> RequirementStatus) option" where
  "flags g = (\<lambda>k. map_option (\<lambda>q. (Seen q, Status q)) (g k))"

definition sameShape :: "reqGraph \<Rightarrow> reqGraph \<Rightarrow> bool" where
  "sameShape g h = (shape g = shape h)"

text \<open>\<open>upReturns n g r\<close>: the parent links above \<open>r\<close> end within depth \<open>n\<close>.\<close>

primrec upReturns :: "nat \<Rightarrow> reqGraph \<Rightarrow> string \<Rightarrow> bool" where
  "upReturns 0 g r = False"
| "upReturns (Suc n) g r =
     (case g r of None \<Rightarrow> False | Some q \<Rightarrow> \<forall>p \<in> set (Parents q). upReturns n g p)"

text \<open>
  \<open>isLevel lv g k\<close>: the key \<open>k\<close> holds a node of level \<open>lv\<close>; \<open>nodesAt lv ks g\<close> are those
  keys among \<open>ks\<close>.
\<close>

definition isLevel :: "RequirementLevel \<Rightarrow> reqGraph \<Rightarrow> string \<Rightarrow> bool" where
  "isLevel lv g k = (case g k of None \<Rightarrow> False | Some q \<Rightarrow> Level q = lv)"

definition nodesAt :: "RequirementLevel \<Rightarrow> string list \<Rightarrow> reqGraph \<Rightarrow> string list" where
  "nodesAt lv ks g = filter (isLevel lv g) ks"

text \<open>
  \<open>erasePos g\<close> forgets the positions, which the pass over the code nodes changes;
  \<open>hasParents g k\<close>: the node under \<open>k\<close> has a resolved parent.
\<close>

definition erasePos :: "reqGraph \<Rightarrow> reqGraph" where
  "erasePos g = (\<lambda>k. map_option (\<lambda>q. q\<lparr>Position := 0\<rparr>) (g k))"

definition hasParents :: "reqGraph \<Rightarrow> string \<Rightarrow> bool" where
  "hasParents g k = (case g k of None \<Rightarrow> False | Some q \<Rightarrow> Parents q \<noteq> [])"


section \<open>What linking records\<close>

text \<open>
  The definitions of this section are not in the source: they give, for one node and for
  one declared parent, the text and the edge that the loops of \<open>Resolve\<close> add, read off
  the graph as it is before linking.
\<close>

definition noParentsError :: "Req \<Rightarrow> string" where
  "noParentsError req =
     (if ParentIds req = [] \<and> Level req \<noteq> SYSTEM
      then ''Requirement '' @ ID req @ '' in file '' @ Path req @ '' has no parents.\<newline>''
      else [])"

definition deletedParentError :: "Req \<Rightarrow> string \<Rightarrow> string" where
  "deletedParentError req parentId =
     (if Level req \<noteq> CODE
      then ''Invalid parent of requirement '' @ ID req @ '': '' @ parentId @ '' is deleted.\<newline>''
      else ''Invalid reference in file '' @ Path req @ '': '' @ parentId @ '' is deleted.\<newline>'')"

definition missingParentError :: "Req \<Rightarrow> string \<Rightarrow> string" where
  "missingParentError req parentId =
     (if Level req \<noteq> CODE
      then ''Invalid parent of requirement '' @ ID req @ '': '' @ parentId @ '' does not exist.\<newline>''
      else ''Invalid reference in file '' @ Path req @ '': '' @ parentId @ '' does not exist.\<newline>'')"

definition parentError :: "reqGraph \<Rightarrow> Req \<Rightarrow> string \<Rightarrow> string" where
  "parentError g req parentId =
     (case g parentId of
        None \<Rightarrow> missingParentError req parentId
      | Some parent \<Rightarrow>
          if IsDeleted parent \<and> \<not> IsDeleted req then deletedParentError req parentId else [])"

definition reqErrors :: "reqGraph \<Rightarrow> string \<Rightarrow> string" where
  "reqErrors g k =
     (case g k of
        None \<Rightarrow> []
      | Some req \<Rightarrow> noParentsError req @ concat (map (parentError g req) (ParentIds req)))"

text \<open>The edges (child, parent) that linking creates for the node under \<open>k\<close>, in order.\<close>

definition reqEdges :: "reqGraph \<Rightarrow> string \<Rightarrow> (string \<times> string) list" where
  "reqEdges g k =
     (case g k of
        None \<Rightarrow> []
      | Some req \<Rightarrow> map (\<lambda>p. (k, p)) (filter (\<lambda>p. g p \<noteq> None) (ParentIds req)))"

definition addEdges :: "(string \<times> string) list \<Rightarrow> reqGraph \<Rightarrow> reqGraph" where
  "addEdges es g =
     (\<lambda>j. map_option
            (\<lambda>q. q\<lparr>Parents := Parents q @ map snd (filter (\<lambda>e. fst e = j) es),
                   Children := Children q @ map fst (filter (\<lambda>e. snd e = j) es)\<rparr>)
            (g j))"

text \<open>
  \<open>parentsAccepted g req\<close>: the loops of \<open>Resolve\<close> add no text for the node \<open>req\<close>. It
  declares a parent unless it is at \<open>SYSTEM\<close> level, and every parent it declares is in the
  graph and is not deleted, or the node is deleted too.
\<close>

definition parentsAccepted :: "reqGraph \<Rightarrow> Req \<Rightarrow> bool" where
  "parentsAccepted g req =
     ((ParentIds req = [] \<longrightarrow> Level req = SYSTEM)
      \<and> (\<forall>p\<in>set (ParentIds req).
            case g p of None \<Rightarrow> False | Some parent \<Rightarrow> IsDeleted parent \<longrightarrow> IsDeleted req))"

section \<open>Links that follow the levels\<close>

text \<open>
  \<open>levelOrdered g\<close>: every resolved parent link goes to a node of a level nearer to
  \<open>SYSTEM\<close> and every resolved child link to a node of a level nearer to \<open>CODE\<close>.
  \<open>levelOrderedOn ks g\<close> is the same, checked for the keys \<open>ks\<close>.
\<close>

definition levelOrderedAt :: "reqGraph \<Rightarrow> Req \<Rightarrow> bool" where
  "levelOrderedAt g q =
     ((\<forall>p\<in>set (Parents q). case g p of None \<Rightarrow> False | Some qp \<Rightarrow> levelNum (Level qp) < levelNum (Level q))
      \<and> (\<forall>c\<in>set (Children q). case g c of None \<Rightarrow> False | Some qc \<Rightarrow> levelNum (Level q) < levelNum (Level qc)))"

definition levelOrdered :: "reqGraph \<Rightarrow> bool" where
  "levelOrdered g = (\<forall>k q. g k = Some q \<longrightarrow> levelOrderedAt g q)"

definition levelOrderedOn :: "string list \<Rightarrow> reqGraph \<Rightarrow> bool" where
  "levelOrderedOn ks g = list_all (\<lambda>k. case g k of None \<Rightarrow> True | Some q \<Rightarrow> levelOrderedAt g q) ks"

section \<open>Example graphs\<close>

text \<open>
  A specification node as \<open>AddReq\<close> stores it and a code node as \<open>AddCodeRefs\<close> stores it.
\<close>

definition specNode :: "string \<Rightarrow> RequirementLevel \<Rightarrow> string list \<Rightarrow> string \<Rightarrow> int \<Rightarrow> Req" where
  "specNode ident lv parents body pos =
     zeroReq\<lparr>ID := ident, Level := lv, ParentIds := parents, Path := ''/certdocs/a.lyx'',
       Body := body, Position := pos\<rparr>"

definition codeNode :: "string \<Rightarrow> string list \<Rightarrow> Req" where
  "codeNode fileName reqIds =
     zeroReq\<lparr>ID := fileName, Path := fileName, FileHash := ''h'', ParentIds := reqIds, Level := CODE\<rparr>"

text \<open>
  One system requirement, two high-level requirements of which one is implemented down
  to a code file and the other has no children.
\<close>

definition exampleKeys :: "string list" where
  "exampleKeys = [''REQ-S'', ''REQ-H'', ''REQ-H2'', ''REQ-L'', ''main.go'']"

definition exampleGraph :: reqGraph where
  "exampleGraph =
     [''REQ-S'' \<mapsto> specNode ''REQ-S'' SYSTEM [] ''System\<newline>text'' 0,
      ''REQ-H'' \<mapsto> specNode ''REQ-H'' HIGH [''REQ-S''] ''High\<newline>text'' 1,
      ''REQ-H2'' \<mapsto> specNode ''REQ-H2'' HIGH [''REQ-S''] ''High two\<newline>text'' 2,
      ''REQ-L'' \<mapsto> specNode ''REQ-L'' LOW [''REQ-H''] ''Low\<newline>text'' 3,
      ''main.go'' \<mapsto> codeNode ''main.go'' [''REQ-L'']]"

text \<open>
  The sort of the examples is the insertion sort \<open>sort_key\<close>: \<open>sort.Sort\<close> sorts a slice of
  fewer than seven elements by plain insertion, and no list of the examples is longer.
\<close>

definition exampleSort :: sorter where
  "exampleSort = sort_key"

text \<open>What a returned graph holds under the keys \<open>ks\<close>, read through \<open>f\<close>.\<close>

definition observe :: "(Req \<Rightarrow> 'a) \<Rightarrow> string list \<Rightarrow> reqGraph \<Rightarrow> 'a option list" where
  "observe f ks g = map (\<lambda>k. map_option f (g k)) ks"

definition returnedGraph :: "reqGraph result \<Rightarrow> reqGraph" where
  "returnedGraph res = (case res of Return g \<Rightarrow> g | _ \<Rightarrow> Map.empty)"

definition resolvedGraph :: "(error option \<times> reqGraph) result \<Rightarrow> reqGraph" where
  "resolvedGraph res = (case res of Return (e, g) \<Rightarrow> g | _ \<Rightarrow> Map.empty)"

text \<open>
  A graph that passes linking although a code file is declared as the parent of a
  requirement: \<open>Resolve\<close> compares no levels.
\<close>

definition codeParentKeys :: "string list" where
  "codeParentKeys = [''REQ-S'', ''c.go'', ''REQ-H'']"

definition codeParentGraph :: reqGraph where
  "codeParentGraph =
     [''REQ-S'' \<mapsto> specNode ''REQ-S'' SYSTEM [] ''System\<newline>text'' 0,
      ''c.go'' \<mapsto> codeNode ''c.go'' [''REQ-S''],
      ''REQ-H'' \<mapsto> specNode ''REQ-H'' HIGH [''c.go''] ''High\<newline>text'' 1]"

text \<open>A requirement whose parent has been deleted, and a code file that refers to it.\<close>

definition deletedKeys :: "string list" where
  "deletedKeys = [''REQ-D'', ''REQ-H'', ''x.go'']"

definition deletedGraph :: reqGraph where
  "deletedGraph =
     [''REQ-D'' \<mapsto> specNode ''REQ-D'' SYSTEM [] '' DELETED System\<newline>text'' 0,
      ''REQ-H'' \<mapsto> specNode ''REQ-H'' HIGH [''REQ-D''] ''High\<newline>text'' 1,
      ''x.go'' \<mapsto> codeNode ''x.go'' [''REQ-D'', ''REQ-X'']]"

text \<open>
  Two high-level requirements that name each other as parents: linking reports no error.
\<close>

definition cycleKeys :: "string list" where
  "cycleKeys = [''REQ-S'', ''REQ-H1'', ''REQ-H2'']"

definition cycleGraph :: reqGraph where
  "cycleGraph =
     [''REQ-S'' \<mapsto> specNode ''REQ-S'' SYSTEM [] ''System\<newline>text'' 0,
      ''REQ-H1'' \<mapsto> specNode ''REQ-H1'' HIGH [''REQ-S'', ''REQ-H2''] ''High one\<newline>text'' 1,
      ''REQ-H2'' \<mapsto> specNode ''REQ-H2'' HIGH [''REQ-H1''] ''High two\<newline>text'' 2]"

text \<open>
  Two high-level requirements that name only each other as parents: no \<open>SYSTEM\<close> node is
  above them and no code file below.
\<close>

definition islandKeys :: "string list" where
  "islandKeys = [''REQ-S'', ''REQ-A'', ''REQ-B'']"

definition islandGraph :: reqGraph where
  "islandGraph =
     [''REQ-S'' \<mapsto> specNode ''REQ-S'' SYSTEM [] ''System\<newline>text'' 0,
      ''REQ-A'' \<mapsto> specNode ''REQ-A'' HIGH [''REQ-B''] ''High a\<newline>text'' 1,
      ''REQ-B'' \<mapsto> specNode ''REQ-B'' HIGH [''REQ-A''] ''High b\<newline>text'' 2]"



text \<open>
  Stand-ins for the library functions in the examples: \<open>asciiToUpper\<close> is
  \<open>strings.ToUpper\<close> on ASCII text, and \<open>digitsCompile\<close> is \<open>regexp.Compile\<close> for the one
  expression \<open>[0-9]+\<close>, which matches the strings that hold a digit.
\<close>

definition asciiToUpper :: "string \<Rightarrow> string" where
  "asciiToUpper s =
     map (\<lambda>c. if 97 \<le> (of_char c :: nat) \<and> (of_char c :: nat) \<le> 122
               then char_of ((of_char c :: nat) - 32) else c) s"

definition digitsCompile :: "string \<Rightarrow> error + (string \<Rightarrow> bool)" where
  "digitsCompile v =
     (if v = ''[0-9]+''
      then Inr (\<lambda>x. \<exists>c\<in>set x. 48 \<le> (of_char c :: nat) \<and> (of_char c :: nat) \<le> 57)
      else Inl (Errorf ''error parsing regexp: %s'' [Str v]))"

definition exampleSchema :: "(string \<times> string) list list" where
  "exampleSchema = [[(''name'', ''Rationale'')], [(''name'', ''Parents'')],
                    [(''name'', ''Verification''), (''value'', ''[0-9]+'')]]"

definition attributeKeys :: "string list" where
  "attributeKeys = [''REQ-S'', ''REQ-H'', ''main.go'']"

definition attributeGraph :: reqGraph where
  "attributeGraph =
     [''REQ-S'' \<mapsto> (specNode ''REQ-S'' SYSTEM [] ''System\<newline>text'' 0)
                      \<lparr>Attributes := [''RATIONALE'' \<mapsto> ''r'', ''VERIFICATION'' \<mapsto> ''test 12'']\<rparr>,
      ''REQ-H'' \<mapsto> (specNode ''REQ-H'' HIGH [''REQ-S''] ''High\<newline>text'' 1)
                      \<lparr>Attributes := [''PARENTS'' \<mapsto> ''REQ-S'', ''VERIFICATION'' \<mapsto> ''none'']\<rparr>,
      ''main.go'' \<mapsto> codeNode ''main.go'' [''REQ-H'']]"

text \<open>
  Stand-ins for the parser of package \<open>lyx\<close> in the example of \<open>ParseLyx\<close>: each file
  holds one well-formed high-level requirement, which the linter accepts.
\<close>

definition duplicateRecord :: "string \<Rightarrow> lyxReq" where
  "duplicateRecord fileName =
     \<lparr>lyxID = ''REQ-0-DDLN-SWH-001'', lyxParents = [''REQ-0-DDLN-SYS-001''],
      lyxAttributes = [''TEXT'' \<mapsto> ''Title of '' @ fileName], lyxPosition = 0\<rparr>"

definition exampleParseLyx :: "string \<Rightarrow> reqGraph \<Rightarrow> fatal + (error list \<times> reqGraph)" where
  "exampleParseLyx fileName graph =
     ParseLyx (\<lambda>f. None) (\<lambda>f. Inr [duplicateRecord f]) Inr (\<lambda>f len present r. ([], present))
       (\<lambda>r. ''SWH'') ''/repo'' fileName graph"

section \<open>The downward traversal\<close>

lemma sameShape_refl [simp]: "sameShape g g"
  by (simp add: sameShape_def)

lemma sameShape_sym: "sameShape g h \<Longrightarrow> sameShape h g"
  by (simp add: sameShape_def)

lemma sameShape_trans: "sameShape g h \<Longrightarrow> sameShape h i \<Longrightarrow> sameShape g i"
  by (simp add: sameShape_def)

lemma sameShape_None: "sameShape g h \<Longrightarrow> (g k = None) = (h k = None)"
proof -
  assume "sameShape g h"
  then have "shape g k = shape h k" by (simp add: sameShape_def)
  then show ?thesis by (cases "g k"; cases "h k"; simp add: shape_def)
qed

lemma sameShape_Some:
  assumes "sameShape g h" "g k = Some q"
  shows "\<exists>q'. h k = Some q' \<and> Level q' = Level q \<and> set (Children q') = set (Children q) \<and> set (Parents q') = set (Parents q)"
proof -
  from assms(1) have "shape g k = shape h k" by (simp add: sameShape_def)
  with assms(2) show ?thesis by (cases "h k"; simp add: shape_def)
qed

lemma computedStatus_shape: "sameShape g h \<Longrightarrow> computedStatus n g r = computedStatus n h r"
proof (induction n arbitrary: r)
  case 0 show ?case by simp
next
  case (Suc n)
  show ?case
  proof (cases "g r")
    case None
    then have "h r = None" using Suc.prems sameShape_None by blast
    with None show ?thesis by simp
  next
    case (Some q)
    then obtain q' where q': "h r = Some q'" "Level q' = Level q" "set (Children q') = set (Children q)"
      using sameShape_Some[OF Suc.prems] by blast
    then have e: "(Children q' = []) = (Children q = [])" by (metis set_empty)
    show ?thesis using Some q' e Suc.IH[OF Suc.prems] by auto
  qed
qed

lemma childRel_shape: "sameShape g h \<Longrightarrow> childRel g = childRel h"
  unfolding childRel_def
  by (auto dest: sameShape_Some sameShape_Some[OF sameShape_sym])

lemma parentRel_shape: "sameShape g h \<Longrightarrow> parentRel g = parentRel h"
  unfolding parentRel_def
  by (auto dest: sameShape_Some sameShape_Some[OF sameShape_sym])

lemma desc_shape: "sameShape g h \<Longrightarrow> desc g r = desc h r"
  by (simp add: desc_def childRel_shape)

lemma computedStatus_mono: "computedStatus n g r = Some s \<Longrightarrow> computedStatus (Suc n) g r = Some s"
proof (induction n arbitrary: r s)
  case 0 then show ?case by simp
next
  case (Suc n)
  from Suc.prems obtain q where q: "g r = Some q" by (auto split: option.splits)
  show ?case
  proof (cases "Level q \<noteq> CODE \<and> Children q = []")
    case True
    with Suc.prems q show ?thesis by simp
  next
    case False
    from Suc.prems q False have all: "\<forall>c\<in>set (Children q). computedStatus n g c \<noteq> None"
      by (auto split: if_splits)
    then have eq: "\<forall>c\<in>set (Children q). computedStatus (Suc n) g c = computedStatus n g c"
      using Suc.IH by fastforce
    have "computedStatus (Suc (Suc n)) g r =
       (if \<exists>c \<in> set (Children q). computedStatus (Suc n) g c = None then None
          else if \<forall>c \<in> set (Children q). computedStatus (Suc n) g c = Some COMPLETED then Some COMPLETED
          else Some STARTED)"
      using q False by (subst computedStatus.simps(2)) simp
    also have "\<dots> = (if \<exists>c \<in> set (Children q). computedStatus n g c = None then None
          else if \<forall>c \<in> set (Children q). computedStatus n g c = Some COMPLETED then Some COMPLETED
          else Some STARTED)"
      using eq by simp
    also have "\<dots> = computedStatus (Suc n) g r" using q False by simp
    finally show ?thesis using Suc.prems by simp
  qed
qed

lemma computedStatus_child:
  "computedStatus (Suc n) g r \<noteq> None \<Longrightarrow> g r = Some q \<Longrightarrow> c \<in> set (Children q) \<Longrightarrow> computedStatus n g c \<noteq> None"
  by (auto split: if_splits)

lemma computedStatus_desc:
  assumes "(r, k) \<in> (childRel g)\<^sup>*" "computedStatus n g r \<noteq> None"
  shows "computedStatus n g k \<noteq> None"
  using assms
proof (induction rule: rtrancl_induct)
  case base then show ?case by simp
next
  case (step y z)
  then obtain q where q: "g y = Some q" "z \<in> set (Children q)" by (auto simp: childRel_def)
  from step have ny: "computedStatus n g y \<noteq> None" by simp
  then obtain m where m: "n = Suc m" by (cases n) auto
  with ny q have "computedStatus m g z \<noteq> None" using computedStatus_child by blast
  then show ?case using computedStatus_mono m by fastforce
qed

lemma computedStatus_acyclic:
  "computedStatus n g c \<noteq> None \<Longrightarrow> g r = Some q \<Longrightarrow> c \<in> set (Children q) \<Longrightarrow> (c, r) \<notin> (childRel g)\<^sup>*"
proof (induction n)
  case 0 then show ?case by simp
next
  case (Suc n)
  show ?case
  proof
    assume cr: "(c, r) \<in> (childRel g)\<^sup>*"
    then have "computedStatus (Suc n) g r \<noteq> None" using computedStatus_desc Suc.prems(1) by blast
    then have "computedStatus n g c \<noteq> None" using computedStatus_child Suc.prems by blast
    then show False using Suc.IH Suc.prems cr by blast
  qed
qed


lemma shape_upd_flags:
  "g r = Some q \<Longrightarrow> shape (g(r \<mapsto> q\<lparr>Seen := a, Status := b\<rparr>)) = shape g"
  by (auto simp: shape_def)

lemma shape_upd_seen:
  "g r = Some q \<Longrightarrow> shape (g(r \<mapsto> q\<lparr>Seen := a\<rparr>)) = shape g"
  by (auto simp: shape_def)

lemma shape_setStatus: "shape (setStatus r s g) = shape g"
  by (auto simp: shape_def setStatus_def split: option.splits)

lemma shape_markDown: "shape (markDown n g D) = shape g"
  by (auto simp: shape_def markDown_def map_option_case split: option.splits)

lemma shape_markSeen: "shape (markSeen g D) = shape g"
  by (auto simp: shape_def markSeen_def map_option_case split: option.splits)

lemma sameShape_markDown: "sameShape (markDown n g D) g"
  by (simp add: sameShape_def shape_markDown)

lemma markDown_empty [simp]: "markDown n g {} = g"
  by (simp add: markDown_def)

lemma desc_self: "r \<in> desc g r"
  by (simp add: desc_def)

lemma desc_unfold:
  "g r = Some q \<Longrightarrow> desc g r = insert r (\<Union>c\<in>set (Children q). desc g c)"
proof (intro set_eqI iffI)
  fix k assume q: "g r = Some q" and "k \<in> desc g r"
  then have "(r, k) \<in> (childRel g)\<^sup>*" by (simp add: desc_def)
  then show "k \<in> insert r (\<Union>c\<in>set (Children q). desc g c)"
  proof (cases rule: converse_rtranclE)
    case base then show ?thesis by simp
  next
    case (step y)
    then have "y \<in> set (Children q)" using q by (auto simp: childRel_def)
    with step show ?thesis by (auto simp: desc_def)
  qed
next
  fix k assume q: "g r = Some q" and k: "k \<in> insert r (\<Union>c\<in>set (Children q). desc g c)"
  show "k \<in> desc g r"
  proof (cases "k = r")
    case True then show ?thesis by (simp add: desc_def)
  next
    case False
    with k obtain c where c: "c \<in> set (Children q)" "(c, k) \<in> (childRel g)\<^sup>*" by (auto simp: desc_def)
    from c(1) q have "(r, c) \<in> childRel g" by (auto simp: childRel_def)
    with c(2) show ?thesis by (auto simp: desc_def)
  qed
qed

lemma childrenLoop_char:
  assumes IH: "\<And>c h s. computedStatus n h c = Some s \<Longrightarrow> resolveDown n c h = Return (s, markDown n h (desc h c))"
    and q: "g r = Some q"
  shows "\<forall>c\<in>set cs. computedStatus n g c \<noteq> None \<Longrightarrow> \<forall>c\<in>set cs. r \<notin> desc g c \<Longrightarrow> r \<notin> D \<Longrightarrow>
     childrenLoop (resolveDown n) r cs ((markDown n g D)(r \<mapsto> q\<lparr>Seen := True, Status := st\<rparr>)) =
       Return ((markDown n g (D \<union> (\<Union>c\<in>set cs. desc g c)))
                (r \<mapsto> q\<lparr>Seen := True,
                   Status := (if \<exists>c\<in>set cs. computedStatus n g c \<noteq> Some COMPLETED then STARTED else st)\<rparr>))"
proof (induction cs arbitrary: D st)
  case Nil
  then show ?case by simp
next
  case (Cons c cs)
  let ?h = "(markDown n g D)(r \<mapsto> q\<lparr>Seen := True, Status := st\<rparr>)"
  have sh: "sameShape ?h g"
  proof -
    have "(markDown n g D) r = Some (if r \<in> D then q\<lparr>Seen := True, Status := the (computedStatus n g r)\<rparr> else q)"
      using q by (simp add: markDown_def)
    then have "shape ?h = shape (markDown n g D)"
      using q Cons.prems(3) by (auto simp: shape_def markDown_def)
    then show ?thesis by (simp add: sameShape_def shape_markDown)
  qed
  from Cons.prems obtain s where s: "computedStatus n g c = Some s" by auto
  then have sh': "computedStatus n ?h c = Some s" using computedStatus_shape[OF sh] by simp
  have rc: "r \<notin> desc g c" using Cons.prems by simp
  have dh: "desc ?h c = desc g c" using desc_shape[OF sh] by simp
  have step: "resolveDown n c ?h = Return (s, markDown n ?h (desc g c))"
    using IH[OF sh'] dh by simp
  have md: "markDown n ?h (desc g c) = (markDown n g (D \<union> desc g c))(r \<mapsto> q\<lparr>Seen := True, Status := st\<rparr>)"
  proof
    fix k
    show "markDown n ?h (desc g c) k = ((markDown n g (D \<union> desc g c))(r \<mapsto> q\<lparr>Seen := True, Status := st\<rparr>)) k"
      using rc computedStatus_shape[OF sh, of n k]
      by (cases "g k") (auto simp: markDown_def)
  qed
  let ?st' = "if s \<noteq> COMPLETED then STARTED else st"
  have nxt: "(if s \<noteq> COMPLETED then setStatus r STARTED (markDown n ?h (desc g c)) else markDown n ?h (desc g c))
      = (markDown n g (D \<union> desc g c))(r \<mapsto> q\<lparr>Seen := True, Status := ?st'\<rparr>)"
    unfolding md by (simp add: setStatus_def)
  have rD: "r \<notin> D \<union> desc g c" using Cons.prems rc by simp
  have "childrenLoop (resolveDown n) r (c # cs) ?h =
      childrenLoop (resolveDown n) r cs ((markDown n g (D \<union> desc g c))(r \<mapsto> q\<lparr>Seen := True, Status := ?st'\<rparr>))"
    using step nxt by simp
  also have "\<dots> = Return ((markDown n g ((D \<union> desc g c) \<union> (\<Union>c\<in>set cs. desc g c)))
                (r \<mapsto> q\<lparr>Seen := True,
                   Status := (if \<exists>c\<in>set cs. computedStatus n g c \<noteq> Some COMPLETED then STARTED else ?st')\<rparr>))"
  proof (rule Cons.IH[OF _ _ rD])
    show "\<forall>c\<in>set cs. computedStatus n g c \<noteq> None" using Cons.prems(1) by simp
    show "\<forall>c\<in>set cs. r \<notin> desc g c" using Cons.prems(2) by simp
  qed
  also have "(D \<union> desc g c) \<union> (\<Union>c\<in>set cs. desc g c) = D \<union> (\<Union>c\<in>set (c # cs). desc g c)"
    by auto
  also have "(if \<exists>c\<in>set cs. computedStatus n g c \<noteq> Some COMPLETED then STARTED else ?st') =
     (if \<exists>c\<in>set (c # cs). computedStatus n g c \<noteq> Some COMPLETED then STARTED else st)"
    using s by auto
  finally show ?case .
qed


lemma resolveDown_char:
  "computedStatus n g r = Some s \<Longrightarrow> resolveDown n r g = Return (s, markDown n g (desc g r))"
proof (induction n arbitrary: g r s)
  case 0
  then show ?case by simp
next
  case (Suc n)
  from Suc.prems obtain q where q: "g r = Some q" by (auto split: option.splits)
  show ?case
  proof (cases "Level q \<noteq> CODE \<and> Children q = []")
    case True
    then have s: "s = NOT_STARTED" using Suc.prems q by simp
    have d: "desc g r = {r}" using desc_unfold[where g=g and r=r, OF q] True by simp
    have "setStatus r NOT_STARTED (g(r \<mapsto> q\<lparr>Seen := True, Status := COMPLETED\<rparr>))
            = markDown (Suc n) g {r}"
      using q True by (auto simp: setStatus_def markDown_def)
    then show ?thesis using q True s d by simp
  next
    case False
    from Suc.prems q False have all: "\<forall>c\<in>set (Children q). computedStatus n g c \<noteq> None"
      by (auto split: if_splits)
    have s: "s = (if \<exists>c\<in>set (Children q). computedStatus n g c \<noteq> Some COMPLETED then STARTED else COMPLETED)"
      using Suc.prems q False all by (auto split: if_splits)
    have acyc: "\<forall>c\<in>set (Children q). r \<notin> desc g c"
    proof
      fix c assume c: "c \<in> set (Children q)"
      then have "computedStatus n g c \<noteq> None" using all by blast
      then have "(c, r) \<notin> (childRel g)\<^sup>*" using q c by (rule computedStatus_acyclic)
      then show "r \<notin> desc g c" by (simp add: desc_def)
    qed
    have loop: "childrenLoop (resolveDown n) r (Children q) ((markDown n g {})(r \<mapsto> q\<lparr>Seen := True, Status := COMPLETED\<rparr>)) =
       Return ((markDown n g ({} \<union> (\<Union>c\<in>set (Children q). desc g c)))
                (r \<mapsto> q\<lparr>Seen := True, Status := (if \<exists>c\<in>set (Children q). computedStatus n g c \<noteq> Some COMPLETED then STARTED else COMPLETED)\<rparr>))"
      by (rule childrenLoop_char[OF Suc.IH q all acyc]) simp_all
    have fin: "(markDown n g (\<Union>c\<in>set (Children q). desc g c))(r \<mapsto> q\<lparr>Seen := True, Status := s\<rparr>)
         = markDown (Suc n) g (desc g r)"
    proof
      fix k
      show "((markDown n g (\<Union>c\<in>set (Children q). desc g c))(r \<mapsto> q\<lparr>Seen := True, Status := s\<rparr>)) k
         = markDown (Suc n) g (desc g r) k"
      proof (cases "k = r")
        case True
        then show ?thesis using q Suc.prems desc_self[of r g] by (simp add: markDown_def)
      next
        case kr: False
        show ?thesis
        proof (cases "k \<in> (\<Union>c\<in>set (Children q). desc g c)")
          case True
          then obtain c where c: "c \<in> set (Children q)" "(c, k) \<in> (childRel g)\<^sup>*"
            by (auto simp: desc_def)
          then have "computedStatus n g k \<noteq> None" using computedStatus_desc all by blast
          then obtain sk where sk: "computedStatus n g k = Some sk" by auto
          then have "computedStatus (Suc n) g k = Some sk" by (rule computedStatus_mono)
          with sk True kr show ?thesis
            unfolding desc_unfold[where g=g and r=r, OF q] markDown_def by simp
        next
          case False
          with kr show ?thesis unfolding desc_unfold[where g=g and r=r, OF q] markDown_def by simp
        qed
      qed
    qed
    have loop': "childrenLoop (resolveDown n) r (Children q) (g(r \<mapsto> q\<lparr>Seen := True, Status := COMPLETED\<rparr>)) =
       Return ((markDown n g (\<Union>c\<in>set (Children q). desc g c))(r \<mapsto> q\<lparr>Seen := True, Status := s\<rparr>))"
      using loop s by simp
    have "resolveDown (Suc n) r g =
        Return (s, (markDown n g (\<Union>c\<in>set (Children q). desc g c))(r \<mapsto> q\<lparr>Seen := True, Status := s\<rparr>))"
    proof -
      have nl: "(Level q \<noteq> CODE \<and> Children q = []) = False" using False by blast
      show ?thesis using q by (simp add: Let_def loop' nl del: not_None_eq)
    qed
    then show ?thesis by (simp only: fin)
  qed
qed

lemma childrenLoop_fail:
  assumes IH: "\<And>c h. computedStatus n h c = None \<Longrightarrow> \<forall>x. resolveDown n c h \<noteq> Return x"
  shows "\<exists>c\<in>set cs. computedStatus n h c = None \<Longrightarrow> childrenLoop (resolveDown n) r cs h \<noteq> Return x"
proof (induction cs arbitrary: h)
  case Nil
  then show ?case by simp
next
  case (Cons c cs)
  show ?case
  proof (cases "computedStatus n h c")
    case None
    then have "\<forall>x. resolveDown n c h \<noteq> Return x" by (rule IH)
    then show ?thesis by (cases "resolveDown n c h") auto
  next
    case (Some s)
    let ?h' = "markDown n h (desc h c)"
    let ?h'' = "if s \<noteq> COMPLETED then setStatus r STARTED ?h' else ?h'"
    have "shape ?h'' = shape h" by (simp add: shape_setStatus shape_markDown)
    then have "sameShape ?h'' h" by (simp add: sameShape_def)
    then have "\<exists>c\<in>set cs. computedStatus n ?h'' c = None"
      using Cons.prems Some computedStatus_shape[of ?h'' h n] by auto
    then have "childrenLoop (resolveDown n) r cs ?h'' \<noteq> Return x" by (rule Cons.IH)
    then show ?thesis using resolveDown_char[OF Some] by simp
  qed
qed

lemma resolveDown_fail:
  "computedStatus n g r = None \<Longrightarrow> \<forall>x. resolveDown n r g \<noteq> Return x"
proof (induction n arbitrary: g r)
  case 0
  then show ?case by simp
next
  case (Suc n)
  show ?case
  proof (cases "g r")
    case None
    then show ?thesis by simp
  next
    case (Some q)
    with Suc.prems have nl: "\<not> (Level q \<noteq> CODE \<and> Children q = [])" by auto
    let ?g1 = "g(r \<mapsto> q\<lparr>Seen := True, Status := COMPLETED\<rparr>)"
    have "sameShape ?g1 g" using shape_upd_flags[where g=g and r=r, OF Some] by (simp add: sameShape_def)
    moreover have "\<exists>c\<in>set (Children q). computedStatus n g c = None"
      using Suc.prems Some nl by (auto split: if_splits)
    ultimately have "\<exists>c\<in>set (Children q). computedStatus n ?g1 c = None"
      using computedStatus_shape[of ?g1 g n] by auto
    then have "\<forall>x. childrenLoop (resolveDown n) r (Children q) ?g1 \<noteq> Return x"
      using childrenLoop_fail[OF Suc.IH] by blast
    moreover have nl': "(Level q \<noteq> CODE \<and> Children q = []) = False" using nl by blast
    ultimately show ?thesis using Some
      by (cases "childrenLoop (resolveDown n) r (Children q) ?g1") (simp_all add: Let_def nl')
  qed
qed

lemma resolveDown_Return_iff:
  "resolveDown n r g = Return (s, g') \<longleftrightarrow> computedStatus n g r = Some s \<and> g' = markDown n g (desc g r)"
proof (cases "computedStatus n g r")
  case None
  then show ?thesis using resolveDown_fail by auto
next
  case (Some a)
  then show ?thesis using resolveDown_char[OF Some] by auto
qed

section \<open>The upward traversal\<close>

lemma upReturns_shape: "sameShape g h \<Longrightarrow> upReturns n g r = upReturns n h r"
proof (induction n arbitrary: r)
  case 0 show ?case by simp
next
  case (Suc n)
  show ?case
  proof (cases "g r")
    case None
    then have "h r = None" using Suc.prems sameShape_None by blast
    with None show ?thesis by simp
  next
    case (Some q)
    then obtain q' where q': "h r = Some q'" "set (Parents q') = set (Parents q)"
      using sameShape_Some[OF Suc.prems] by blast
    show ?thesis using Some q' Suc.IH[OF Suc.prems] by auto
  qed
qed

lemma sameShape_markSeen: "sameShape (markSeen g D) g"
  by (simp add: sameShape_def shape_markSeen)

lemma anc_shape: "sameShape g h \<Longrightarrow> anc g r = anc h r"
  by (simp add: anc_def parentRel_shape)

lemma markSeen_empty [simp]: "markSeen g {} = g"
  by (simp add: markSeen_def)

lemma markSeen_markSeen: "markSeen (markSeen g D) E = markSeen g (D \<union> E)"
proof
  fix k show "markSeen (markSeen g D) E k = markSeen g (D \<union> E) k"
    by (cases "g k") (auto simp: markSeen_def)
qed

lemma markSeen_single: "g r = Some q \<Longrightarrow> g(r \<mapsto> q\<lparr>Seen := True\<rparr>) = markSeen g {r}"
  by (auto simp: markSeen_def)

lemma anc_self: "r \<in> anc g r"
  by (simp add: anc_def)

lemma anc_unfold:
  "g r = Some q \<Longrightarrow> anc g r = insert r (\<Union>p\<in>set (Parents q). anc g p)"
proof (intro set_eqI iffI)
  fix k assume q: "g r = Some q" and "k \<in> anc g r"
  then have "(r, k) \<in> (parentRel g)\<^sup>*" by (simp add: anc_def)
  then show "k \<in> insert r (\<Union>p\<in>set (Parents q). anc g p)"
  proof (cases rule: converse_rtranclE)
    case base then show ?thesis by simp
  next
    case (step y)
    then have "y \<in> set (Parents q)" using q by (auto simp: parentRel_def)
    with step show ?thesis by (auto simp: anc_def)
  qed
next
  fix k assume q: "g r = Some q" and k: "k \<in> insert r (\<Union>p\<in>set (Parents q). anc g p)"
  show "k \<in> anc g r"
  proof (cases "k = r")
    case True then show ?thesis by (simp add: anc_def)
  next
    case False
    with k obtain p where p: "p \<in> set (Parents q)" "(p, k) \<in> (parentRel g)\<^sup>*" by (auto simp: anc_def)
    from p(1) q have "(r, p) \<in> parentRel g" by (auto simp: parentRel_def)
    with p(2) show ?thesis by (auto simp: anc_def)
  qed
qed

lemma forEach_up_char:
  assumes IH: "\<And>p h. upReturns n h p \<Longrightarrow> resolveUp n p h = Return (markSeen h (anc h p))"
  shows "\<forall>p\<in>set ps. upReturns n g p \<Longrightarrow>
     forEach (resolveUp n) ps (markSeen g D) = Return (markSeen g (D \<union> (\<Union>p\<in>set ps. anc g p)))"
proof (induction ps arbitrary: D)
  case Nil
  then show ?case by simp
next
  case (Cons p ps)
  let ?h = "markSeen g D"
  have sh: "sameShape ?h g" by (rule sameShape_markSeen)
  have "upReturns n ?h p" using Cons.prems upReturns_shape[OF sh] by simp
  then have "resolveUp n p ?h = Return (markSeen ?h (anc ?h p))" by (rule IH)
  then have step: "resolveUp n p ?h = Return (markSeen g (D \<union> anc g p))"
    using anc_shape[OF sh] by (simp add: markSeen_markSeen)
  have rest: "forEach (resolveUp n) ps (markSeen g (D \<union> anc g p)) =
      Return (markSeen g ((D \<union> anc g p) \<union> (\<Union>p\<in>set ps. anc g p)))"
    by (rule Cons.IH) (use Cons.prems in simp)
  have "(D \<union> anc g p) \<union> (\<Union>p\<in>set ps. anc g p) = D \<union> (\<Union>p\<in>set (p # ps). anc g p)" by auto
  with step rest show ?case by simp
qed

lemma resolveUp_char:
  "upReturns n g r \<Longrightarrow> resolveUp n r g = Return (markSeen g (anc g r))"
proof (induction n arbitrary: g r)
  case 0
  then show ?case by simp
next
  case (Suc n)
  from Suc.prems obtain q where q: "g r = Some q" by (auto split: option.splits)
  with Suc.prems have all: "\<forall>p\<in>set (Parents q). upReturns n g p" by simp
  have "forEach (resolveUp n) (Parents q) (markSeen g {r}) =
      Return (markSeen g ({r} \<union> (\<Union>p\<in>set (Parents q). anc g p)))"
    by (rule forEach_up_char[OF Suc.IH all])
  then show ?case
    using q markSeen_single[where g=g and r=r, OF q] anc_unfold[where g=g and r=r, OF q] by simp
qed

lemma forEach_up_fail:
  assumes IH: "\<And>p h. \<not> upReturns n h p \<Longrightarrow> \<forall>x. resolveUp n p h \<noteq> Return x"
  shows "\<exists>p\<in>set ps. \<not> upReturns n h p \<Longrightarrow> forEach (resolveUp n) ps h \<noteq> Return x"
proof (induction ps arbitrary: h)
  case Nil
  then show ?case by simp
next
  case (Cons p ps)
  show ?case
  proof (cases "upReturns n h p")
    case False
    then have "\<forall>x. resolveUp n p h \<noteq> Return x" by (rule IH)
    then show ?thesis by (cases "resolveUp n p h") auto
  next
    case True
    let ?h' = "markSeen h (anc h p)"
    have "\<exists>p\<in>set ps. \<not> upReturns n ?h' p"
      using Cons.prems True upReturns_shape[OF sameShape_markSeen, of n h "anc h p"] by auto
    then have "forEach (resolveUp n) ps ?h' \<noteq> Return x" by (rule Cons.IH)
    then show ?thesis using resolveUp_char[OF True] by simp
  qed
qed

lemma resolveUp_fail:
  "\<not> upReturns n g r \<Longrightarrow> \<forall>x. resolveUp n r g \<noteq> Return x"
proof (induction n arbitrary: g r)
  case 0
  then show ?case by simp
next
  case (Suc n)
  show ?case
  proof (cases "g r")
    case None
    then show ?thesis by simp
  next
    case (Some q)
    let ?g1 = "g(r \<mapsto> q\<lparr>Seen := True\<rparr>)"
    have "sameShape ?g1 g" using shape_upd_seen[where g=g and r=r, OF Some] by (simp add: sameShape_def)
    moreover have "\<exists>p\<in>set (Parents q). \<not> upReturns n g p"
      using Suc.prems Some by auto
    ultimately have "\<exists>p\<in>set (Parents q). \<not> upReturns n ?g1 p"
      using upReturns_shape[of ?g1 g n] by auto
    then have "\<forall>x. forEach (resolveUp n) (Parents q) ?g1 \<noteq> Return x"
      using forEach_up_fail[OF Suc.IH] by blast
    then show ?thesis using Some by simp
  qed
qed

lemma resolveUp_Return_iff:
  "resolveUp n r g = Return g' \<longleftrightarrow> upReturns n g r \<and> g' = markSeen g (anc g r)"
  using resolveUp_char resolveUp_fail by (cases "upReturns n g r") auto


section \<open>The passes of status propagation\<close>

lemma isLevel_shape: "sameShape g h \<Longrightarrow> isLevel lv g k = isLevel lv h k"
proof (cases "g k")
  case None
  assume sh: "sameShape g h"
  then have "h k = None" using None sameShape_None by blast
  with None show ?thesis by (simp add: isLevel_def)
next
  case (Some q)
  assume sh: "sameShape g h"
  then obtain q' where "h k = Some q'" "Level q' = Level q" using Some sameShape_Some[OF sh] by blast
  with Some show ?thesis by (simp add: isLevel_def)
qed

lemma nodesAt_shape: "sameShape g h \<Longrightarrow> nodesAt lv ks g = nodesAt lv ks h"
  using isLevel_shape[of g h lv] by (simp add: nodesAt_def cong: filter_cong)

lemma nodesAt_Cons:
  "nodesAt lv (k # ks) g = (if isLevel lv g k then k # nodesAt lv ks g else nodesAt lv ks g)"
  by (simp add: nodesAt_def)

lemma nodesAt_Nil [simp]: "nodesAt lv [] g = []"
  by (simp add: nodesAt_def)

lemma markDown_markDown: "markDown n (markDown n g D) E = markDown n g (D \<union> E)"
proof
  fix k
  have "computedStatus n (markDown n g D) k = computedStatus n g k"
    by (rule computedStatus_shape[OF sameShape_markDown])
  then show "markDown n (markDown n g D) E k = markDown n g (D \<union> E) k"
    by (cases "g k") (auto simp: markDown_def)
qed

lemma downStep_Return_iff:
  "downStep n k g = Return g' \<longleftrightarrow>
     (if isLevel SYSTEM g k
      then computedStatus n g k \<noteq> None \<and> g' = markDown n g (desc g k)
      else g' = g)"
proof (cases "g k")
  case None
  then show ?thesis by (auto simp: downStep_def isLevel_def)
next
  case (Some q)
  show ?thesis
  proof (cases "Level q = SYSTEM")
    case False
    with Some show ?thesis by (auto simp: downStep_def isLevel_def)
  next
    case True
    have "downStep n k g = Return g' \<longleftrightarrow> (\<exists>s. resolveDown n k g = Return (s, g'))"
      using Some True by (cases "resolveDown n k g") (auto simp: downStep_def)
    also have "\<dots> \<longleftrightarrow> computedStatus n g k \<noteq> None \<and> g' = markDown n g (desc g k)"
      by (auto simp: resolveDown_Return_iff)
    finally show ?thesis using Some True by (simp add: isLevel_def)
  qed
qed

lemma downPass_char_gen:
  "\<forall>k\<in>set (nodesAt SYSTEM ks g). computedStatus n g k \<noteq> None \<Longrightarrow>
   forEach (downStep n) ks (markDown n g D) =
     Return (markDown n g (D \<union> (\<Union>k\<in>set (nodesAt SYSTEM ks g). desc g k)))"
proof (induction ks arbitrary: D)
  case Nil
  then show ?case by (simp add: nodesAt_def)
next
  case (Cons k ks)
  let ?h = "markDown n g D"
  have sh: "sameShape ?h g" by (rule sameShape_markDown)
  have rest: "\<forall>k\<in>set (nodesAt SYSTEM ks g). computedStatus n g k \<noteq> None"
    using Cons.prems by (auto simp: nodesAt_Cons split: if_splits)
  show ?case
  proof (cases "isLevel SYSTEM g k")
    case True
    then have kin: "nodesAt SYSTEM (k # ks) g = k # nodesAt SYSTEM ks g" by (simp add: nodesAt_Cons)
    have "isLevel SYSTEM ?h k" using True isLevel_shape[OF sh] by simp
    moreover have "computedStatus n ?h k \<noteq> None"
      using Cons.prems kin computedStatus_shape[OF sh, of n k] by simp
    ultimately have "downStep n k ?h = Return (markDown n ?h (desc ?h k))"
      using downStep_Return_iff[of n k ?h "markDown n ?h (desc ?h k)"] by simp
    then have step: "downStep n k ?h = Return (markDown n g (D \<union> desc g k))"
      using desc_shape[OF sh] by (simp add: markDown_markDown)
    have "forEach (downStep n) ks (markDown n g (D \<union> desc g k)) =
        Return (markDown n g ((D \<union> desc g k) \<union> (\<Union>k\<in>set (nodesAt SYSTEM ks g). desc g k)))"
      using rest by (rule Cons.IH)
    moreover have "(D \<union> desc g k) \<union> (\<Union>k\<in>set (nodesAt SYSTEM ks g). desc g k)
        = D \<union> (\<Union>k\<in>set (nodesAt SYSTEM (k # ks) g). desc g k)"
      unfolding kin by auto
    ultimately show ?thesis using step by simp
  next
    case False
    then have kin: "nodesAt SYSTEM (k # ks) g = nodesAt SYSTEM ks g" by (simp add: nodesAt_Cons)
    have "\<not> isLevel SYSTEM ?h k" using False isLevel_shape[OF sh] by simp
    then have step: "downStep n k ?h = Return ?h"
      using downStep_Return_iff[of n k ?h ?h] by simp
    have "forEach (downStep n) ks ?h = Return (markDown n g (D \<union> (\<Union>k\<in>set (nodesAt SYSTEM ks g). desc g k)))"
      using rest by (rule Cons.IH)
    then show ?thesis using step kin by simp
  qed
qed

lemma downPass_fail_gen:
  "\<exists>k\<in>set (nodesAt SYSTEM ks g). computedStatus n g k = None \<Longrightarrow>
   forEach (downStep n) ks g \<noteq> Return x"
proof (induction ks arbitrary: g)
  case Nil
  then show ?case by (simp add: nodesAt_def)
next
  case (Cons k ks)
  show ?case
  proof (cases "downStep n k g")
    case (Return g')
    then have g': "if isLevel SYSTEM g k
      then computedStatus n g k \<noteq> None \<and> g' = markDown n g (desc g k) else g' = g"
      by (simp add: downStep_Return_iff)
    then have sh: "sameShape g' g" by (auto simp: sameShape_markDown split: if_splits)
    have "\<exists>k\<in>set (nodesAt SYSTEM ks g). computedStatus n g k = None"
      using Cons.prems g' by (auto simp: nodesAt_Cons split: if_splits)
    then have "\<exists>k\<in>set (nodesAt SYSTEM ks g'). computedStatus n g' k = None"
      using nodesAt_shape[OF sh] computedStatus_shape[OF sh] by simp
    then have "forEach (downStep n) ks g' \<noteq> Return x" by (rule Cons.IH)
    then show ?thesis using Return by simp
  qed simp_all
qed

lemma downPass_Return_iff:
  "downPass n ks g = Return g' \<longleftrightarrow>
     (\<forall>k\<in>set (nodesAt SYSTEM ks g). computedStatus n g k \<noteq> None) \<and>
     g' = markDown n g (\<Union>k\<in>set (nodesAt SYSTEM ks g). desc g k)"
proof (cases "\<forall>k\<in>set (nodesAt SYSTEM ks g). computedStatus n g k \<noteq> None")
  case True
  then show ?thesis using downPass_char_gen[of ks g n "{}"] by (auto simp: downPass_def)
next
  case False
  then show ?thesis using downPass_fail_gen[of ks g n g'] by (auto simp: downPass_def)
qed


subsection \<open>Sorting\<close>

lemma isSort_set: "isSort srt \<Longrightarrow> set (srt f xs) = set xs"
  unfolding isSort_def by (metis mset_eq_setD)


lemma isSort_sort_key: "isSort sort_key"
  by (simp add: isSort_def)

lemma isSort_exampleSort: "isSort exampleSort"
  by (simp add: exampleSort_def isSort_sort_key)

lemma sortStep_eq:
  "sortStep srt k g =
     (case g k of
        None \<Rightarrow> g
      | Some q \<Rightarrow> g(k \<mapsto> q\<lparr>Parents := srt (positionOf g) (Parents q),
                         Children := srt (positionOf g) (Children q)\<rparr>))"
proof (cases "g k")
  case None
  then show ?thesis by (simp add: sortStep_def)
next
  case (Some q)
  let ?g1 = "g(k \<mapsto> q\<lparr>Parents := byPosition srt g (Parents q)\<rparr>)"
  have "positionOf ?g1 = positionOf g"
  proof
    fix p show "positionOf ?g1 p = positionOf g p" using Some by (simp add: positionOf_def)
  qed
  then have "byPosition srt ?g1 = byPosition srt g" by (intro ext) (simp add: byPosition_def)
  then show ?thesis using Some by (simp add: sortStep_def Let_def byPosition_def)
qed

lemma positionOf_sortStep [simp]: "positionOf (sortStep srt k g) = positionOf g"
proof
  fix p show "positionOf (sortStep srt k g) p = positionOf g p"
    by (cases "g k") (simp_all add: sortStep_eq positionOf_def)
qed

lemma shape_sortStep: "isSort srt \<Longrightarrow> shape (sortStep srt k g) = shape g"
proof
  fix j assume "isSort srt"
  then show "shape (sortStep srt k g) j = shape g j"
    by (cases "g k") (simp_all add: sortStep_eq shape_def isSort_set)
qed

lemma flags_sortStep: "flags (sortStep srt k g) = flags g"
proof
  fix j show "flags (sortStep srt k g) j = flags g j"
    by (cases "g k") (simp_all add: sortStep_eq flags_def)
qed



lemma positionOf_sortPass [simp]: "positionOf (sortPass srt ks g) = positionOf g"
  unfolding sortPass_def by (induction ks arbitrary: g) simp_all

lemma shape_sortPass: "isSort srt \<Longrightarrow> shape (sortPass srt ks g) = shape g"
  unfolding sortPass_def by (induction ks arbitrary: g) (simp_all add: shape_sortStep)

lemma flags_sortPass: "flags (sortPass srt ks g) = flags g"
  unfolding sortPass_def by (induction ks arbitrary: g) (simp_all add: flags_sortStep)

lemma sameShape_sortPass: "isSort srt \<Longrightarrow> sameShape (sortPass srt ks g) g"
  by (simp add: sameShape_def shape_sortPass)



subsection \<open>The pass over the CODE nodes\<close>

lemma shape_erasePos: "shape (erasePos g) = shape g"
proof
  fix k show "shape (erasePos g) k = shape g k"
    by (cases "g k") (auto simp: shape_def erasePos_def)
qed

lemma flags_erasePos: "flags (erasePos g) = flags g"
proof
  fix k show "flags (erasePos g) k = flags g k"
    by (cases "g k") (auto simp: flags_def erasePos_def)
qed

lemma erasePos_markSeen: "erasePos (markSeen g D) = markSeen (erasePos g) D"
proof
  fix k show "erasePos (markSeen g D) k = markSeen (erasePos g) D k"
    by (cases "g k") (auto simp: markSeen_def erasePos_def)
qed

lemma erasePos_upd_Position:
  "g k = Some q \<Longrightarrow> erasePos (g(k \<mapsto> q\<lparr>Position := x\<rparr>)) = erasePos g"
  by (auto simp: erasePos_def)

lemma hasParents_shape: "sameShape g h \<Longrightarrow> hasParents g k = hasParents h k"
proof (cases "g k")
  case None
  assume sh: "sameShape g h"
  then have "h k = None" using None sameShape_None by blast
  with None show ?thesis by (simp add: hasParents_def)
next
  case (Some q)
  assume sh: "sameShape g h"
  then obtain q' where "h k = Some q'" "set (Parents q') = set (Parents q)"
    using Some sameShape_Some[OF sh] by blast
  then have "(Parents q' = []) = (Parents q = [])" "h k = Some q'" by (metis set_empty)+
  with Some show ?thesis by (simp add: hasParents_def)
qed

lemma upReturns_parent_dom:
  "upReturns n g k \<Longrightarrow> g k = Some q \<Longrightarrow> p \<in> set (Parents q) \<Longrightarrow> g p \<noteq> None"
proof (cases n)
  case 0
  assume "upReturns n g k" with 0 show ?thesis by simp
next
  case (Suc m)
  assume "upReturns n g k" "g k = Some q" "p \<in> set (Parents q)"
  with Suc have "upReturns m g p" by auto
  then show ?thesis by (cases m) (auto split: option.splits)
qed

lemma positionOf_markSeen [simp]: "positionOf (markSeen g D) = positionOf g"
proof
  fix p show "positionOf (markSeen g D) p = positionOf g p"
    by (cases "g p") (auto simp: positionOf_def markSeen_def)
qed

lemma upStep_not_code: "\<not> isLevel CODE g k \<Longrightarrow> upStep n k g = Return g"
  by (auto simp: upStep_def isLevel_def split: option.splits)

lemma upStep_code:
  assumes "isLevel CODE g k" "g k = Some q"
  shows "upStep n k g =
     (if upReturns n g k
      then (case Parents q of
              [] \<Rightarrow> Panic
            | p # ps \<Rightarrow> Return ((markSeen g (anc g k))(k \<mapsto> q\<lparr>Seen := True, Position := positionOf g p\<rparr>)))
      else (case resolveUp n k g of OutOfFuel \<Rightarrow> OutOfFuel | _ \<Rightarrow> Panic))"
proof (cases "upReturns n g k")
  case False
  then have "\<forall>x. resolveUp n k g \<noteq> Return x" by (rule resolveUp_fail)
  then show ?thesis using assms False
    by (cases "resolveUp n k g") (auto simp: upStep_def isLevel_def)
next
  case True
  let ?g1 = "markSeen g (anc g k)"
  have ru: "resolveUp n k g = Return ?g1" using True by (rule resolveUp_char)
  have g1k: "?g1 k = Some (q\<lparr>Seen := True\<rparr>)" using assms(2) anc_self[of k g] by (simp add: markSeen_def)
  show ?thesis
  proof (cases "Parents q")
    case Nil
    then show ?thesis using assms True ru g1k by (simp add: upStep_def isLevel_def)
  next
    case (Cons p ps)
    then have "g p \<noteq> None" using upReturns_parent_dom[OF True assms(2), of p] by simp
    then obtain qp where qp: "g p = Some qp" by auto
    have "\<exists>qp'. ?g1 p = Some qp' \<and> Position qp' = Position qp"
      using qp by (cases "p \<in> anc g k") (simp_all add: markSeen_def)
    then obtain qp' where qp': "?g1 p = Some qp'" "Position qp' = Position qp" by blast
    have "positionOf g p = Position qp" using qp by (simp add: positionOf_def)
    then show ?thesis using assms True ru g1k Cons qp'
      by (simp add: upStep_def isLevel_def)
  qed
qed

lemma upStep_Return_code:
  assumes "isLevel CODE g k" "upStep n k g = Return g'"
  shows "upReturns n g k \<and> hasParents g k \<and>
    (\<exists>q p ps. g k = Some q \<and> Parents q = p # ps \<and>
       g' = (markSeen g (anc g k))(k \<mapsto> q\<lparr>Seen := True, Position := positionOf g p\<rparr>))"
proof -
  from assms(1) obtain q where q: "g k = Some q" by (auto simp: isLevel_def split: option.splits)
  have ur: "upReturns n g k"
  proof (rule ccontr)
    assume "\<not> upReturns n g k"
    then show False using upStep_code[OF assms(1) q, of n] assms(2)
      by (cases "resolveUp n k g") auto
  qed
  with upStep_code[OF assms(1) q, of n] assms(2) q show ?thesis
    by (cases "Parents q") (auto simp: hasParents_def)
qed

lemma upStep_erasePos:
  assumes "upStep n k g = Return g'"
  shows "erasePos g' = markSeen (erasePos g) (if isLevel CODE g k then anc g k else {})"
proof (cases "isLevel CODE g k")
  case False
  then show ?thesis using assms upStep_not_code[OF False, of n] by simp
next
  case True
  from upStep_Return_code[OF True assms] obtain q p ps where
    q: "g k = Some q" "Parents q = p # ps"
      "g' = (markSeen g (anc g k))(k \<mapsto> q\<lparr>Seen := True, Position := positionOf g p\<rparr>)" by blast
  have "(markSeen g (anc g k)) k = Some (q\<lparr>Seen := True\<rparr>)"
    using q(1) anc_self[of k g] by (simp add: markSeen_def)
  then have "erasePos ((markSeen g (anc g k))(k \<mapsto> q\<lparr>Seen := True\<rparr>\<lparr>Position := positionOf g p\<rparr>))
      = erasePos (markSeen g (anc g k))" by (rule erasePos_upd_Position)
  then show ?thesis using q(3) True by (simp add: erasePos_markSeen)
qed

lemma erasePos_sameShape: "erasePos h = markSeen (erasePos g) D \<Longrightarrow> sameShape h g"
proof -
  assume "erasePos h = markSeen (erasePos g) D"
  then have "shape (erasePos h) = shape (markSeen (erasePos g) D)" by simp
  then show ?thesis by (simp add: shape_erasePos shape_markSeen sameShape_def)
qed

lemma upStep_sameShape: "upStep n k g = Return g' \<Longrightarrow> sameShape g' g"
  using upStep_erasePos erasePos_sameShape by blast

lemma upPass_erasePos_gen:
  "forEach (upStep n) ks h = Return h' \<Longrightarrow>
   erasePos h' = markSeen (erasePos h) (\<Union>k\<in>set (nodesAt CODE ks h). anc h k)"
proof (induction ks arbitrary: h)
  case Nil
  then show ?case by simp
next
  case (Cons k ks)
  from Cons.prems obtain h1 where h1: "upStep n k h = Return h1" "forEach (upStep n) ks h1 = Return h'"
    by (cases "upStep n k h") auto
  have e1: "erasePos h1 = markSeen (erasePos h) (if isLevel CODE h k then anc h k else {})"
    using h1(1) by (rule upStep_erasePos)
  have sh: "sameShape h1 h" using h1(1) by (rule upStep_sameShape)
  have "erasePos h' = markSeen (erasePos h1) (\<Union>k\<in>set (nodesAt CODE ks h1). anc h1 k)"
    using h1(2) by (rule Cons.IH)
  also have "\<dots> = markSeen (erasePos h1) (\<Union>k\<in>set (nodesAt CODE ks h). anc h k)"
    using nodesAt_shape[OF sh] anc_shape[OF sh] by simp
  also have "\<dots> = markSeen (erasePos h) ((if isLevel CODE h k then anc h k else {}) \<union> (\<Union>k\<in>set (nodesAt CODE ks h). anc h k))"
    by (simp only: e1 markSeen_markSeen)
  also have "(if isLevel CODE h k then anc h k else {}) \<union> (\<Union>k\<in>set (nodesAt CODE ks h). anc h k)
     = (\<Union>k\<in>set (nodesAt CODE (k # ks) h). anc h k)"
    by (auto simp: nodesAt_Cons)
  finally show ?case .
qed

lemma upPass_erasePos:
  "upPass n ks g = Return g' \<Longrightarrow>
   erasePos g' = markSeen (erasePos g) (\<Union>k\<in>set (nodesAt CODE ks g). anc g k)"
  unfolding upPass_def by (rule upPass_erasePos_gen)

lemma upPass_sameShape: "upPass n ks g = Return g' \<Longrightarrow> sameShape g' g"
  using upPass_erasePos erasePos_sameShape by blast

lemma upPass_Return_pre:
  "forEach (upStep n) ks h = Return h' \<Longrightarrow>
   \<forall>k\<in>set (nodesAt CODE ks h). upReturns n h k \<and> hasParents h k"
proof (induction ks arbitrary: h)
  case Nil
  then show ?case by simp
next
  case (Cons k ks)
  from Cons.prems obtain h1 where h1: "upStep n k h = Return h1" "forEach (upStep n) ks h1 = Return h'"
    by (cases "upStep n k h") auto
  have sh: "sameShape h1 h" using h1(1) by (rule upStep_sameShape)
  have "\<forall>k\<in>set (nodesAt CODE ks h1). upReturns n h1 k \<and> hasParents h1 k"
    using h1(2) by (rule Cons.IH)
  then have rest: "\<forall>k\<in>set (nodesAt CODE ks h). upReturns n h k \<and> hasParents h k"
    using nodesAt_shape[OF sh] upReturns_shape[OF sh] hasParents_shape[OF sh] by simp
  show ?case
  proof (cases "isLevel CODE h k")
    case True
    then show ?thesis using rest upStep_Return_code[OF True h1(1)] by (simp add: nodesAt_Cons)
  next
    case False
    then show ?thesis using rest by (simp add: nodesAt_Cons)
  qed
qed

lemma upPass_returns_gen:
  "\<forall>k\<in>set (nodesAt CODE ks h). upReturns n h k \<and> hasParents h k \<Longrightarrow>
   \<exists>h'. forEach (upStep n) ks h = Return h'"
proof (induction ks arbitrary: h)
  case Nil
  then show ?case by simp
next
  case (Cons k ks)
  have "\<exists>h1. upStep n k h = Return h1"
  proof (cases "isLevel CODE h k")
    case False
    then show ?thesis using upStep_not_code by blast
  next
    case True
    then obtain q where q: "h k = Some q" by (auto simp: isLevel_def split: option.splits)
    from True Cons.prems have "upReturns n h k" "hasParents h k" by (simp_all add: nodesAt_Cons)
    then show ?thesis using upStep_code[OF True q, of n] q
      by (cases "Parents q") (auto simp: hasParents_def)
  qed
  then obtain h1 where h1: "upStep n k h = Return h1" by blast
  have sh: "sameShape h1 h" using h1 by (rule upStep_sameShape)
  have "\<forall>k\<in>set (nodesAt CODE ks h1). upReturns n h1 k \<and> hasParents h1 k"
    using Cons.prems nodesAt_shape[OF sh] upReturns_shape[OF sh] hasParents_shape[OF sh]
    by (auto simp: nodesAt_Cons split: if_splits)
  then obtain h' where "forEach (upStep n) ks h1 = Return h'" using Cons.IH by blast
  then show ?case using h1 by simp
qed

lemma upPass_Return_iff_ex:
  "(\<exists>g'. upPass n ks g = Return g') \<longleftrightarrow>
   (\<forall>k\<in>set (nodesAt CODE ks g). upReturns n g k \<and> hasParents g k)"
  unfolding upPass_def using upPass_Return_pre upPass_returns_gen by blast

subsection \<open>Status propagation as a whole\<close>

lemma flags_markSeen:
  "flags (markSeen h A) k = map_option (\<lambda>(s, st). (s \<or> k \<in> A, st)) (flags h k)"
  by (cases "h k") (auto simp: flags_def markSeen_def)

lemma flags_markDown:
  "flags (markDown n g D) k =
     map_option (\<lambda>(s, st). (s \<or> k \<in> D, if k \<in> D then the (computedStatus n g k) else st)) (flags g k)"
  by (cases "g k") (auto simp: flags_def markDown_def)

lemma flags_cong_markSeen: "flags h = flags i \<Longrightarrow> flags (markSeen h A) = flags (markSeen i A)"
  by (rule ext) (simp add: flags_markSeen)

lemma sameShape_I: "shape g = shape h \<Longrightarrow> sameShape g h"
  by (simp add: sameShape_def)

lemma statusPropagation_Return:
  assumes "statusPropagation srt n ks2 ks3 ks4 g = Return g'" and srt: "isSort srt"
  defines "D \<equiv> \<Union>k\<in>set (nodesAt SYSTEM ks2 g). desc g k"
    and "A \<equiv> \<Union>k\<in>set (nodesAt CODE ks4 g). anc g k"
  shows "sameShape g' g"
    and "flags g' k = map_option (\<lambda>(s, st). (s \<or> k \<in> D \<or> k \<in> A, if k \<in> D then the (computedStatus n g k) else st)) (flags g k)"
    and "\<forall>k\<in>set (nodesAt SYSTEM ks2 g). computedStatus n g k \<noteq> None"
    and "\<forall>k\<in>set (nodesAt CODE ks4 g). upReturns n g k \<and> hasParents g k"
proof -
  from assms(1) obtain g2 where g2: "downPass n ks2 g = Return g2"
      and up: "upPass n ks4 (sortPass srt ks3 g2) = Return g'"
    by (cases "downPass n ks2 g") (auto simp: statusPropagation_def)
  from g2 have ok: "\<forall>k\<in>set (nodesAt SYSTEM ks2 g). computedStatus n g k \<noteq> None"
    and g2eq: "g2 = markDown n g D"
    by (simp_all add: downPass_Return_iff D_def)
  let ?g3 = "sortPass srt ks3 g2"
  have sh3: "sameShape ?g3 g"
    using sameShape_trans[OF sameShape_sortPass[OF srt] sameShape_markDown] by (simp add: g2eq)
  have fl3: "flags ?g3 = flags (markDown n g D)"
    by (simp add: flags_sortPass g2eq)
  have sh': "sameShape g' ?g3" using up by (rule upPass_sameShape)
  show "sameShape g' g" using sh' sh3 by (rule sameShape_trans)
  have A3: "(\<Union>k\<in>set (nodesAt CODE ks4 ?g3). anc ?g3 k) = A"
    using nodesAt_shape[OF sh3] anc_shape[OF sh3] by (simp add: A_def)
  have "erasePos g' = markSeen (erasePos ?g3) A"
    using upPass_erasePos[OF up] A3 by simp
  then have "flags (erasePos g') = flags (markSeen (erasePos ?g3) A)" by simp
  then have "flags g' = flags (markSeen (erasePos ?g3) A)" by (simp add: flags_erasePos)
  also have "\<dots> = flags (markSeen (markDown n g D) A)"
    by (rule flags_cong_markSeen) (simp add: flags_erasePos fl3)
  finally have "flags g' k = flags (markSeen (markDown n g D) A) k" by simp
  then show "flags g' k = map_option (\<lambda>(s, st). (s \<or> k \<in> D \<or> k \<in> A, if k \<in> D then the (computedStatus n g k) else st)) (flags g k)"
    by (cases "flags g k") (auto simp: flags_markSeen flags_markDown)
  show "\<forall>k\<in>set (nodesAt SYSTEM ks2 g). computedStatus n g k \<noteq> None" by (rule ok)
  have "\<forall>k\<in>set (nodesAt CODE ks4 ?g3). upReturns n ?g3 k \<and> hasParents ?g3 k"
    using up upPass_Return_iff_ex by blast
  then show "\<forall>k\<in>set (nodesAt CODE ks4 g). upReturns n g k \<and> hasParents g k"
    using nodesAt_shape[OF sh3] upReturns_shape[OF sh3] hasParents_shape[OF sh3] by simp
qed

lemma statusPropagation_returns:
  assumes srt: "isSort srt" and "\<forall>k\<in>set (nodesAt SYSTEM ks2 g). computedStatus n g k \<noteq> None"
    and "\<forall>k\<in>set (nodesAt CODE ks4 g). upReturns n g k \<and> hasParents g k"
  shows "\<exists>g'. statusPropagation srt n ks2 ks3 ks4 g = Return g'"
proof -
  let ?D = "\<Union>k\<in>set (nodesAt SYSTEM ks2 g). desc g k"
  have g2: "downPass n ks2 g = Return (markDown n g ?D)"
    using assms(2) by (simp add: downPass_Return_iff)
  let ?g3 = "sortPass srt ks3 (markDown n g ?D)"
  have sh3: "sameShape ?g3 g"
    using sameShape_trans[OF sameShape_sortPass[OF srt] sameShape_markDown] by simp
  have "\<forall>k\<in>set (nodesAt CODE ks4 ?g3). upReturns n ?g3 k \<and> hasParents ?g3 k"
    using assms(3) nodesAt_shape[OF sh3] upReturns_shape[OF sh3] hasParents_shape[OF sh3] by simp
  then obtain g' where "upPass n ks4 ?g3 = Return g'" using upPass_Return_iff_ex by blast
  then show ?thesis using g2 by (simp add: statusPropagation_def)
qed

lemma set_nodesAt: "set (nodesAt lv ks g) = {k \<in> set ks. isLevel lv g k}"
  by (auto simp: nodesAt_def)

section \<open>Linking\<close>

lemma IsDeleted_links [simp]:
  "IsDeleted (q\<lparr>Parents := ps, Children := cs\<rparr>) = IsDeleted q"
  "IsDeleted (q\<lparr>Children := cs\<rparr>) = IsDeleted q"
  "IsDeleted (q\<lparr>Parents := ps\<rparr>) = IsDeleted q"
  by (simp_all add: IsDeleted_def Title_def)

lemma addEdges_Nil [simp]: "addEdges [] g = g"
  by (rule ext) (simp add: addEdges_def option.map_ident)

lemma addEdges_None [simp]: "(addEdges es g k = None) = (g k = None)"
  by (simp add: addEdges_def)

lemma addEdges_None': "g k = None \<Longrightarrow> addEdges es g k = None"
  by simp

lemma addEdges_Some:
  "g k = Some q \<Longrightarrow> addEdges es g k =
     Some (q\<lparr>Parents := Parents q @ map snd (filter (\<lambda>e. fst e = k) es),
             Children := Children q @ map fst (filter (\<lambda>e. snd e = k) es)\<rparr>)"
  by (simp add: addEdges_def)

lemma linkParent_addEdges:
  assumes "g k = Some req"
  shows "linkParent k parentId (e, addEdges es g) =
     (e @ parentError g req parentId,
      addEdges (es @ (if g parentId \<noteq> None then [(k, parentId)] else [])) g)"
proof (cases "g parentId")
  case None
  then show ?thesis using assms
    by (simp add: addEdges_Some parentError_def missingParentError_def)
       (simp add: addEdges_def)
next
  case (Some parent)
  let ?h = "addEdges es g"
  let ?parent' = "parent\<lparr>Parents := Parents parent @ map snd (filter (\<lambda>e. fst e = parentId) es),
             Children := Children parent @ map fst (filter (\<lambda>e. snd e = parentId) es)\<rparr>"
  let ?req' = "req\<lparr>Parents := Parents req @ map snd (filter (\<lambda>e. fst e = k) es),
             Children := Children req @ map fst (filter (\<lambda>e. snd e = k) es)\<rparr>"
  have hk: "?h k = Some ?req'" using assms by (rule addEdges_Some)
  have hp: "?h parentId = Some ?parent'" using Some by (rule addEdges_Some)
  have store: "(case (?h(parentId \<mapsto> ?parent'\<lparr>Children := Children ?parent' @ [k]\<rparr>)) k of
                  None \<Rightarrow> ?h(parentId \<mapsto> ?parent'\<lparr>Children := Children ?parent' @ [k]\<rparr>)
                | Some req1 \<Rightarrow> (?h(parentId \<mapsto> ?parent'\<lparr>Children := Children ?parent' @ [k]\<rparr>))
                     (k \<mapsto> req1\<lparr>Parents := Parents req1 @ [parentId]\<rparr>))
         = addEdges (es @ [(k, parentId)]) g"
  proof
    fix j
    show "(case (?h(parentId \<mapsto> ?parent'\<lparr>Children := Children ?parent' @ [k]\<rparr>)) k of
                  None \<Rightarrow> ?h(parentId \<mapsto> ?parent'\<lparr>Children := Children ?parent' @ [k]\<rparr>)
                | Some req1 \<Rightarrow> (?h(parentId \<mapsto> ?parent'\<lparr>Children := Children ?parent' @ [k]\<rparr>))
                     (k \<mapsto> req1\<lparr>Parents := Parents req1 @ [parentId]\<rparr>)) j
         = addEdges (es @ [(k, parentId)]) g j"
      using assms Some hk
      by (cases "g j") (auto simp: addEdges_def)
  qed
  have err: "(if IsDeleted ?parent' \<and> \<not> IsDeleted ?req'
              then (if Level ?req' \<noteq> CODE
                    then e @ ''Invalid parent of requirement '' @ ID ?req' @ '': '' @ parentId @ '' is deleted.\<newline>''
                    else e @ ''Invalid reference in file '' @ Path ?req' @ '': '' @ parentId @ '' is deleted.\<newline>'')
              else e) = e @ parentError g req parentId"
    using Some by (simp add: parentError_def deletedParentError_def)
  have lhs: "linkParent k parentId (e, ?h) =
      (e @ parentError g req parentId, addEdges (es @ [(k, parentId)]) g)"
    by (simp only: linkParent.simps hk hp option.case Let_def err store)
  show ?thesis unfolding lhs using Some by simp
qed

lemma fold_linkParent:
  assumes "g k = Some req"
  shows "fold (linkParent k) pids (e, addEdges es g) =
     (e @ concat (map (parentError g req) pids),
      addEdges (es @ map (\<lambda>p. (k, p)) (filter (\<lambda>p. g p \<noteq> None) pids)) g)"
proof (induction pids arbitrary: e es)
  case Nil
  then show ?case by simp
next
  case (Cons p pids)
  show ?case
    by (simp add: linkParent_addEdges[where g=g and k=k, OF assms] Cons.IH del: linkParent.simps)
qed

lemma linkReq_addEdges:
  "linkReq k (e, addEdges es g) = (e @ reqErrors g k, addEdges (es @ reqEdges g k) g)"
proof (cases "g k")
  case None
  then show ?thesis by (simp add: reqErrors_def reqEdges_def addEdges_None')
next
  case (Some req)
  let ?req' = "req\<lparr>Parents := Parents req @ map snd (filter (\<lambda>e. fst e = k) es),
             Children := Children req @ map fst (filter (\<lambda>e. snd e = k) es)\<rparr>"
  have hk: "addEdges es g k = Some ?req'" using Some by (rule addEdges_Some)
  have e0: "(if length (ParentIds ?req') = 0 \<and> Level ?req' \<noteq> SYSTEM
             then e @ ''Requirement '' @ ID ?req' @ '' in file '' @ Path ?req' @ '' has no parents.\<newline>''
             else e) = e @ noParentsError req"
    by (simp add: noParentsError_def)
  have "linkReq k (e, addEdges es g) =
      fold (linkParent k) (ParentIds req) (e @ noParentsError req, addEdges es g)"
    using hk e0 by simp
  also have "\<dots> = ((e @ noParentsError req) @ concat (map (parentError g req) (ParentIds req)),
      addEdges (es @ map (\<lambda>p. (k, p)) (filter (\<lambda>p. g p \<noteq> None) (ParentIds req))) g)"
    by (rule fold_linkParent[where g=g and k=k, OF Some])
  finally show ?thesis using Some by (simp add: reqErrors_def reqEdges_def)
qed

lemma fold_linkReq:
  "fold linkReq ks (e, addEdges es g) =
     (e @ concat (map (reqErrors g) ks), addEdges (es @ concat (map (reqEdges g) ks)) g)"
proof (induction ks arbitrary: e es)
  case Nil
  then show ?case by simp
next
  case (Cons k ks)
  show ?case by (simp add: linkReq_addEdges Cons.IH del: linkReq.simps)
qed

lemma link_char:
  "link ks g = (concat (map (reqErrors g) ks), addEdges (concat (map (reqEdges g) ks)) g)"
  using fold_linkReq[of ks "[]" "[]" g] by (simp add: link_def)

lemma flags_addEdges [simp]: "flags (addEdges es g) = flags g"
proof
  fix k show "flags (addEdges es g) k = flags g k"
    by (cases "g k") (simp_all add: flags_def addEdges_def)
qed

lemma isLevel_addEdges [simp]: "isLevel lv (addEdges es g) = isLevel lv g"
proof
  fix k show "isLevel lv (addEdges es g) k = isLevel lv g k"
    by (cases "g k") (simp_all add: isLevel_def addEdges_def)
qed

lemma positionOf_addEdges [simp]: "positionOf (addEdges es g) = positionOf g"
proof
  fix k show "positionOf (addEdges es g) k = positionOf g k"
    by (cases "g k") (simp_all add: positionOf_def addEdges_def)
qed

lemma dom_addEdges [simp]: "dom (addEdges es g) = dom g"
  by (auto simp: dom_def)

section \<open>The status resolveDown computes\<close>

lemma computedStatus_fix:
  assumes "computedStatus n g k = Some s" "g k = Some q"
  shows "(\<forall>c\<in>set (Children q). computedStatus n g c \<noteq> None) \<and>
     s = (if Level q \<noteq> CODE \<and> Children q = [] then NOT_STARTED
          else if \<forall>c\<in>set (Children q). computedStatus n g c = Some COMPLETED then COMPLETED
          else STARTED)"
proof (cases n)
  case 0
  with assms show ?thesis by simp
next
  case (Suc m)
  show ?thesis
  proof (cases "Level q \<noteq> CODE \<and> Children q = []")
    case True
    with assms Suc show ?thesis by simp
  next
    case False
    from assms Suc False have all: "\<forall>c\<in>set (Children q). computedStatus m g c \<noteq> None"
      by (auto split: if_splits)
    then have eq: "\<forall>c\<in>set (Children q). computedStatus n g c = computedStatus m g c"
      using computedStatus_mono Suc by fastforce
    have "s = (if \<forall>c\<in>set (Children q). computedStatus m g c = Some COMPLETED then COMPLETED else STARTED)"
      using assms Suc False all by (auto split: if_splits)
    then show ?thesis using eq all False by auto
  qed
qed

lemma desc_child: "k \<in> desc g r \<Longrightarrow> g k = Some q \<Longrightarrow> c \<in> set (Children q) \<Longrightarrow> c \<in> desc g r"
proof -
  assume "k \<in> desc g r" "g k = Some q" "c \<in> set (Children q)"
  then have "(r, k) \<in> (childRel g)\<^sup>*" "(k, c) \<in> childRel g" by (auto simp: desc_def childRel_def)
  then show ?thesis by (auto simp: desc_def)
qed

text \<open>
  Claim C1, amended. \<open>resolveDown\<close> leaves every node it visits \<open>Seen\<close>, with the status
  \<open>COMPLETED\<close> for a \<open>CODE\<close> node without children, \<open>NOT_STARTED\<close> for any other node
  without children, and for a node with children (of whatever level) \<open>COMPLETED\<close> if every
  child is left \<open>COMPLETED\<close> and \<open>STARTED\<close> otherwise; it returns the status of its node.
\<close>

theorem resolveDown_status:
  assumes "resolveDown n r g = Return (s, g')" and "k \<in> desc g r"
  shows "map_option Status (g' r) = Some s \<and>
     (\<exists>q'. g' k = Some q' \<and> Seen q' \<and>
        Status q' =
          (if Children q' = [] then (if Level q' = CODE then COMPLETED else NOT_STARTED)
           else if \<forall>c\<in>set (Children q'). map_option Status (g' c) = Some COMPLETED
                then COMPLETED else STARTED))"
proof -
  from assms(1) have cs: "computedStatus n g r = Some s" and g': "g' = markDown n g (desc g r)"
    by (simp_all add: resolveDown_Return_iff)
  have stat: "j \<in> desc g r \<Longrightarrow> \<exists>q sj. g j = Some q \<and> computedStatus n g j = Some sj \<and>
      g' j = Some (q\<lparr>Seen := True, Status := sj\<rparr>)" for j
  proof -
    assume j: "j \<in> desc g r"
    then have "computedStatus n g j \<noteq> None" using cs computedStatus_desc[of r j g n] by (simp add: desc_def)
    then obtain sj where sj: "computedStatus n g j = Some sj" by auto
    then obtain q where q: "g j = Some q" by (cases n) (auto split: option.splits)
    show ?thesis using j sj q by (simp add: g' markDown_def)
  qed
  from stat[OF desc_self] cs have first: "map_option Status (g' r) = Some s" by auto
  from stat[OF assms(2)] obtain q sk where k: "g k = Some q" "computedStatus n g k = Some sk"
    "g' k = Some (q\<lparr>Seen := True, Status := sk\<rparr>)" by blast
  note fx = computedStatus_fix[OF k(2) k(1)]
  have child: "map_option Status (g' c) = Some COMPLETED \<longleftrightarrow> computedStatus n g c = Some COMPLETED"
    if "c \<in> set (Children q)" for c
  proof -
    have "c \<in> desc g r" using assms(2) k(1) that by (rule desc_child)
    from stat[OF this] show ?thesis by auto
  qed
  have "sk = (if Children q = [] then (if Level q = CODE then COMPLETED else NOT_STARTED)
           else if \<forall>c\<in>set (Children q). map_option Status (g' c) = Some COMPLETED
                then COMPLETED else STARTED)"
    using fx child by auto
  then show ?thesis using first k(3) by simp
qed

text \<open>
  \<open>AddReq\<close> takes a record that names a code file as its parent, so the graph of the
  next theorem is one that ingestion can build.
\<close>

lemma AddReq_code_parent:
  "map_sum id (\<lambda>(e, g, r). (e, observe (\<lambda>q. (Level q, ParentIds q)) [''c.go'', ''REQ-H''] g))
     (AddReq (\<lambda>r. ''SWH'') ''/repo'' (AddCodeRefs Map.empty ''c.go'' ''c.go'' ''h'' [''REQ-S''])
        \<lparr>lyxID = ''REQ-H'', lyxParents = [''c.go''], lyxAttributes = [''TEXT'' \<mapsto> ''High\<newline>text''],
         lyxPosition = 1\<rparr> ''/repo/certdocs/a.lyx'')
   = Inr (None, [Some (CODE, [''REQ-S'']), Some (HIGH, [''c.go''])])"
  by code_simp

theorem resolveDown_code_status_counterexample:
  "map_result (\<lambda>(e, g). (e, observe (\<lambda>q. (Level q, Status q)) codeParentKeys g))
     (Resolve exampleSort 4 codeParentKeys codeParentKeys codeParentKeys codeParentKeys codeParentGraph)
   = Return (None, [Some (SYSTEM, STARTED), Some (CODE, STARTED), Some (HIGH, NOT_STARTED)])"
  by code_simp

lemma resolveDown_pair_eq:
  "map_result (\<lambda>_. ()) res = Return () \<Longrightarrow> res = Return (case res of Return x \<Rightarrow> x)"
  by (cases res) simp_all

theorem resolveDown_status_witness:
  "observe Status exampleKeys
     (snd (case resolveDown 4 ''REQ-S'' (snd (link exampleKeys exampleGraph)) of Return x \<Rightarrow> x))
   = [Some STARTED, Some COMPLETED, Some NOT_STARTED, Some COMPLETED, Some COMPLETED]
   \<and> ''main.go'' \<in> desc (snd (link exampleKeys exampleGraph)) ''REQ-S''"
proof -
  let ?g = "snd (link exampleKeys exampleGraph)"
  let ?res = "case resolveDown 4 ''REQ-S'' ?g of Return x \<Rightarrow> x"
  have "map_result (\<lambda>_. ()) (resolveDown 4 ''REQ-S'' ?g) = Return ()" by code_simp
  then have r: "resolveDown 4 ''REQ-S'' ?g = Return (fst ?res, snd ?res)"
    using resolveDown_pair_eq by fastforce
  have c: "observe Children exampleKeys ?g = [Some [''REQ-H'', ''REQ-H2''], Some [''REQ-L''], Some [], Some [''main.go''], Some []]"
    by code_simp
  have e1: "(''REQ-S'', ''REQ-H'') \<in> childRel ?g" using c by (auto simp: childRel_def observe_def exampleKeys_def)
  have e2: "(''REQ-H'', ''REQ-L'') \<in> childRel ?g" using c by (auto simp: childRel_def observe_def exampleKeys_def)
  have e3: "(''REQ-L'', ''main.go'') \<in> childRel ?g" using c by (auto simp: childRel_def observe_def exampleKeys_def)
  have d: "''main.go'' \<in> desc ?g ''REQ-S''"
    unfolding desc_def using e1 e2 e3 by (meson Image_singleton_iff rtrancl.rtrancl_into_rtrancl rtrancl.rtrancl_refl)
  have o: "observe Status exampleKeys (snd ?res) = [Some STARTED, Some COMPLETED, Some NOT_STARTED, Some COMPLETED, Some COMPLETED]"
    by code_simp
  from resolveDown_status[OF r d] o d show ?thesis by simp
qed

section \<open>Idempotence of status propagation\<close>

text \<open>
  Claim C8. Status propagation run again on the graph it has returned, with the loops
  over the map in any order, returns with \<open>Seen\<close> and \<open>Status\<close> of every node as they were,
  whatever sort \<open>sort.Sort\<close> is.
\<close>

theorem statusPropagation_idempotent:
  assumes "statusPropagation srt n ks2 ks3 ks4 g = Return g1"
    and "set ks2' = set ks2" and "set ks4' = set ks4" and "isSort srt"
  shows "\<exists>g2. statusPropagation srt n ks2' ks3' ks4' g1 = Return g2 \<and> flags g2 = flags g1"
proof -
  let ?D = "\<Union>k\<in>set (nodesAt SYSTEM ks2 g). desc g k"
  let ?A = "\<Union>k\<in>set (nodesAt CODE ks4 g). anc g k"
  note first = statusPropagation_Return[OF assms(1) assms(4)]
  have sh: "sameShape g1 g" by (rule first(1))
  have sys: "set (nodesAt SYSTEM ks2' g1) = set (nodesAt SYSTEM ks2 g)"
    using assms(2) isLevel_shape[OF sh] by (simp add: set_nodesAt)
  have cod: "set (nodesAt CODE ks4' g1) = set (nodesAt CODE ks4 g)"
    using assms(3) isLevel_shape[OF sh] by (simp add: set_nodesAt)
  have "\<forall>k\<in>set (nodesAt SYSTEM ks2' g1). computedStatus n g1 k \<noteq> None"
    using first(3) sys computedStatus_shape[OF sh] by simp
  moreover have "\<forall>k\<in>set (nodesAt CODE ks4' g1). upReturns n g1 k \<and> hasParents g1 k"
    using first(4) cod upReturns_shape[OF sh] hasParents_shape[OF sh] by simp
  ultimately obtain g2 where g2: "statusPropagation srt n ks2' ks3' ks4' g1 = Return g2"
    using statusPropagation_returns[OF assms(4)] by blast
  have D': "(\<Union>k\<in>set (nodesAt SYSTEM ks2' g1). desc g1 k) = ?D"
    using sys desc_shape[OF sh] by simp
  have A': "(\<Union>k\<in>set (nodesAt CODE ks4' g1). anc g1 k) = ?A"
    using cod anc_shape[OF sh] by simp
  have "flags g2 k = flags g1 k" for k
  proof -
    have "flags g2 k = map_option (\<lambda>(s, st). (s \<or> k \<in> ?D \<or> k \<in> ?A, if k \<in> ?D then the (computedStatus n g k) else st)) (flags g1 k)"
      using statusPropagation_Return(2)[OF g2 assms(4), of k]
      unfolding D' A' computedStatus_shape[OF sh, of n k] .
    also have "\<dots> = flags g1 k"
      unfolding first(2)[of k] by (cases "flags g k") auto
    finally show ?thesis .
  qed
  then have "flags g2 = flags g1" by (rule ext)
  with g2 show ?thesis by blast
qed

lemma returnedGraph_eq: "map_result (\<lambda>_. ()) res = Return () \<Longrightarrow> res = Return (returnedGraph res)"
  by (cases res) (simp_all add: returnedGraph_def)

theorem statusPropagation_idempotent_witness:
  "\<exists>g2. statusPropagation exampleSort 4 (rev exampleKeys) exampleKeys (rev exampleKeys)
           (returnedGraph (statusPropagation exampleSort 4 exampleKeys exampleKeys exampleKeys
              (snd (link exampleKeys exampleGraph)))) = Return g2
      \<and> flags g2 =
        flags (returnedGraph (statusPropagation exampleSort 4 exampleKeys exampleKeys exampleKeys
                 (snd (link exampleKeys exampleGraph))))"
proof -
  have "map_result (\<lambda>_. ()) (statusPropagation exampleSort 4 exampleKeys exampleKeys exampleKeys
          (snd (link exampleKeys exampleGraph))) = Return ()"
    by code_simp
  then have r: "statusPropagation exampleSort 4 exampleKeys exampleKeys exampleKeys (snd (link exampleKeys exampleGraph))
      = Return (returnedGraph (statusPropagation exampleSort 4 exampleKeys exampleKeys exampleKeys
                  (snd (link exampleKeys exampleGraph))))"
    by (rule returnedGraph_eq)
  show ?thesis
    by (rule statusPropagation_idempotent[OF r]) (simp_all add: isSort_exampleSort)
qed

section \<open>The nodes that are not Seen\<close>

lemma Resolve_None_cases:
  assumes "Resolve srt n ks1 ks2 ks3 ks4 rg = Return (None, g')"
  shows "concat (map (reqErrors rg) ks1) = []"
    and "statusPropagation srt n ks2 ks3 ks4 (addEdges (concat (map (reqEdges rg) ks1)) rg) = Return g'"
proof -
  let ?g1 = "addEdges (concat (map (reqEdges rg) ks1)) rg"
  show e: "concat (map (reqErrors rg) ks1) = []"
    using assms by (auto simp: Resolve_def link_char split: if_splits)
  then have "Resolve srt n ks1 ks2 ks3 ks4 rg =
     (case statusPropagation srt n ks2 ks3 ks4 ?g1 of
        Return rg4 \<Rightarrow> Return (None, rg4) | OutOfFuel \<Rightarrow> OutOfFuel | Panic \<Rightarrow> Panic)"
    by (simp add: Resolve_def link_char)
  with assms show "statusPropagation srt n ks2 ks3 ks4 ?g1 = Return g'"
    by (cases "statusPropagation srt n ks2 ks3 ks4 ?g1") simp_all
qed

lemma sameShape_dom: "sameShape g h \<Longrightarrow> dom g = dom h"
  using sameShape_None by (auto simp: dom_def)

lemma isLevel_dom: "isLevel lv g k \<Longrightarrow> k \<in> dom g"
  by (auto simp: isLevel_def split: option.splits)

lemma UN_nodesAt:
  assumes "set ks = dom g"
  shows "(\<Union>r\<in>set (nodesAt lv ks g). f r) = {k. \<exists>r. isLevel lv g r \<and> k \<in> f r}"
proof -
  have "set (nodesAt lv ks g) = {r. isLevel lv g r}"
    using assms isLevel_dom[of lv g] by (auto simp: set_nodesAt)
  then show ?thesis by auto
qed

lemma set_DanglingReqsByPosition:
  "isSort srt \<Longrightarrow>
   set (DanglingReqsByPosition srt ks g) = {k \<in> set ks. map_option Seen (g k) = Some False}"
  by (auto simp: DanglingReqsByPosition_def byPosition_def isSort_set split: option.splits)

text \<open>
  Claim C2, amended. After \<open>Resolve\<close> has returned without error, a node is not \<open>Seen\<close>, and
  so is among the nodes \<open>DanglingReqsByPosition\<close> returns, exactly when it was not \<open>Seen\<close>
  before, no \<open>SYSTEM\<close> node reaches it through child links (\<open>resolveDown\<close> marks the nodes
  it visits too) and no \<open>CODE\<close> node reaches it through parent links. This holds for every sort that
  \<open>isSort\<close> admits as \<open>sort.Sort\<close>.
\<close>

theorem Resolve_not_Seen_iff:
  assumes "Resolve srt n ks1 ks2 ks3 ks4 rg = Return (None, g')"
    and "set ks2 = dom rg" and "set ks4 = dom rg" and "isSort srt"
  shows "(map_option Seen (g' k) = Some False \<longleftrightarrow>
            map_option Seen (rg k) = Some False
            \<and> (\<forall>r. isLevel SYSTEM g' r \<longrightarrow> k \<notin> desc g' r)
            \<and> (\<forall>c. isLevel CODE g' c \<longrightarrow> k \<notin> anc g' c))
     \<and> set (DanglingReqsByPosition srt ks g') = {k \<in> set ks. map_option Seen (g' k) = Some False}"
proof -
  let ?g1 = "addEdges (concat (map (reqEdges rg) ks1)) rg"
  note sp = Resolve_None_cases(2)[OF assms(1)]
  note r = statusPropagation_Return[OF sp assms(4)]
  have sh: "sameShape g' ?g1" by (rule r(1))
  have d1: "dom ?g1 = dom rg" by simp
  have D: "(\<Union>r\<in>set (nodesAt SYSTEM ks2 ?g1). desc ?g1 r) = {k. \<exists>r. isLevel SYSTEM g' r \<and> k \<in> desc g' r}"
  proof -
    have "set ks2 = dom ?g1" using assms(2) by simp
    then have "(\<Union>r\<in>set (nodesAt SYSTEM ks2 ?g1). desc ?g1 r) = {k. \<exists>r. isLevel SYSTEM ?g1 r \<and> k \<in> desc ?g1 r}"
      by (rule UN_nodesAt)
    then show ?thesis using isLevel_shape[OF sh] desc_shape[OF sh] by simp
  qed
  have A: "(\<Union>c\<in>set (nodesAt CODE ks4 ?g1). anc ?g1 c) = {k. \<exists>c. isLevel CODE g' c \<and> k \<in> anc g' c}"
  proof -
    have "set ks4 = dom ?g1" using assms(3) by simp
    then have "(\<Union>c\<in>set (nodesAt CODE ks4 ?g1). anc ?g1 c) = {k. \<exists>c. isLevel CODE ?g1 c \<and> k \<in> anc ?g1 c}"
      by (rule UN_nodesAt)
    then show ?thesis using isLevel_shape[OF sh] anc_shape[OF sh] by simp
  qed
  have fl: "flags g' k = map_option (\<lambda>(s, st). (s \<or> k \<in> {k. \<exists>r. isLevel SYSTEM g' r \<and> k \<in> desc g' r}
        \<or> k \<in> {k. \<exists>c. isLevel CODE g' c \<and> k \<in> anc g' c},
        if k \<in> {k. \<exists>r. isLevel SYSTEM g' r \<and> k \<in> desc g' r} then the (computedStatus n ?g1 k) else st)) (flags rg k)"
    using r(2)[of k] unfolding D A by simp
  have seen': "map_option Seen (g' k) = map_option fst (flags g' k)"
    by (cases "g' k") (simp_all add: flags_def)
  have seen0: "map_option Seen (rg k) = map_option fst (flags rg k)"
    by (cases "rg k") (simp_all add: flags_def)
  have "map_option Seen (g' k) = Some False \<longleftrightarrow>
            map_option Seen (rg k) = Some False
            \<and> (\<forall>r. isLevel SYSTEM g' r \<longrightarrow> k \<notin> desc g' r)
            \<and> (\<forall>c. isLevel CODE g' c \<longrightarrow> k \<notin> anc g' c)"
    unfolding seen' seen0 fl by (cases "flags rg k") auto
  then show ?thesis by (simp add: set_DanglingReqsByPosition[OF assms(4)])
qed

theorem Resolve_not_Seen_counterexample:
  "map_result
     (\<lambda>(e, g). (e, observe (\<lambda>q. (Level q, Children q, Seen q)) [''REQ-H2''] g,
                 DanglingReqsByPosition exampleSort exampleKeys g))
     (Resolve exampleSort 4 exampleKeys exampleKeys exampleKeys exampleKeys exampleGraph)
   = Return (None, [Some (HIGH, [], True)], [])"
  by code_simp

lemma resolvedGraph_eq:
  "map_result fst res = Return None \<Longrightarrow> res = Return (None, resolvedGraph res)"
  by (cases res) (auto simp: resolvedGraph_def)

theorem Resolve_not_Seen_iff_witness:
  "DanglingReqsByPosition exampleSort islandKeys
      (resolvedGraph (Resolve exampleSort 4 islandKeys islandKeys islandKeys islandKeys islandGraph))
     = [''REQ-A'', ''REQ-B'']
   \<and> set (DanglingReqsByPosition exampleSort islandKeys
        (resolvedGraph (Resolve exampleSort 4 islandKeys islandKeys islandKeys islandKeys islandGraph)))
     = {k \<in> set islandKeys.
          map_option Seen (resolvedGraph (Resolve exampleSort 4 islandKeys islandKeys islandKeys islandKeys islandGraph) k)
            = Some False}"
proof -
  let ?res = "Resolve exampleSort 4 islandKeys islandKeys islandKeys islandKeys islandGraph"
  have "map_result fst ?res = Return None" by code_simp
  then have r: "?res = Return (None, resolvedGraph ?res)" by (rule resolvedGraph_eq)
  have d: "set islandKeys = dom islandGraph" by (auto simp: islandKeys_def islandGraph_def)
  have v: "DanglingReqsByPosition exampleSort islandKeys (resolvedGraph ?res) = [''REQ-A'', ''REQ-B'']" by code_simp
  from Resolve_not_Seen_iff[OF r d d isSort_exampleSort, of "''REQ-A''" islandKeys] v show ?thesis by blast
qed

section \<open>Termination of the traversals\<close>

lemma levelNum_le: "levelNum l \<le> 3"
  by (cases l) simp_all

lemma levelOrdered_computedStatus:
  "levelOrdered g \<Longrightarrow> g r = Some q \<Longrightarrow> 4 \<le> levelNum (Level q) + n \<Longrightarrow> computedStatus n g r \<noteq> None"
proof (induction n arbitrary: r q)
  case 0
  then show ?case using levelNum_le[of "Level q"] by simp
next
  case (Suc n)
  have "computedStatus n g c \<noteq> None" if c: "c \<in> set (Children q)" for c
  proof -
    from Suc.prems(1,2) have "levelOrderedAt g q" by (auto simp: levelOrdered_def)
    with c obtain qc where qc: "g c = Some qc" "levelNum (Level q) < levelNum (Level qc)"
      by (auto simp: levelOrderedAt_def split: option.splits)
    then have "4 \<le> levelNum (Level qc) + n" using Suc.prems(3) by simp
    with Suc.IH[OF Suc.prems(1) qc(1)] show ?thesis by simp
  qed
  then have "(\<exists>c\<in>set (Children q). computedStatus n g c = None) = False" by blast
  then show ?case using Suc.prems(2) by (simp del: not_None_eq)
qed

lemma levelOrdered_upReturns:
  "levelOrdered g \<Longrightarrow> g r = Some q \<Longrightarrow> levelNum (Level q) < n \<Longrightarrow> upReturns n g r"
proof (induction n arbitrary: r q)
  case 0
  then show ?case by simp
next
  case (Suc n)
  have "upReturns n g p" if p: "p \<in> set (Parents q)" for p
  proof -
    from Suc.prems(1,2) have "levelOrderedAt g q" by (auto simp: levelOrdered_def)
    with p obtain qp where qp: "g p = Some qp" "levelNum (Level qp) < levelNum (Level q)"
      by (auto simp: levelOrderedAt_def split: option.splits)
    then have "levelNum (Level qp) < n" using Suc.prems(3) by simp
    with Suc.IH[OF Suc.prems(1) qp(1)] show ?thesis by simp
  qed
  then show ?case using Suc.prems(2) by simp
qed

lemma levelOrderedOn_levelOrdered:
  "dom g \<subseteq> set ks \<Longrightarrow> levelOrderedOn ks g \<Longrightarrow> levelOrdered g"
  unfolding levelOrdered_def levelOrderedOn_def list_all_iff
  by (metis domI option.simps(5) subsetD)

lemma levelOrdered_traversals_return:
  assumes "levelOrdered g" and "g r = Some q"
  shows "(\<exists>s g'. resolveDown 4 r g = Return (s, g')) \<and> (\<exists>g'. resolveUp 4 r g = Return g')"
proof -
  have "computedStatus 4 g r \<noteq> None"
    using levelOrdered_computedStatus[OF assms, of 4] by simp
  then obtain s where "computedStatus 4 g r = Some s" by auto
  then have d: "resolveDown 4 r g = Return (s, markDown 4 g (desc g r))" by (rule resolveDown_char)
  have "levelNum (Level q) < 4" using levelNum_le[of "Level q"] by simp
  then have "upReturns 4 g r" using levelOrdered_upReturns[OF assms] by blast
  then have "resolveUp 4 r g = Return (markSeen g (anc g r))" by (rule resolveUp_char)
  with d show ?thesis by blast
qed

lemma noParentsError_empty_iff:
  "noParentsError req = [] \<longleftrightarrow> (ParentIds req = [] \<longrightarrow> Level req = SYSTEM)"
  by (simp add: noParentsError_def)

lemma parentError_empty_iff:
  "parentError g req p = [] \<longleftrightarrow>
     (case g p of None \<Rightarrow> False | Some parent \<Rightarrow> IsDeleted parent \<longrightarrow> IsDeleted req)"
  by (cases "g p") (simp_all add: parentError_def missingParentError_def deletedParentError_def)

lemma reqErrors_empty_iff:
  "reqErrors g k = [] \<longleftrightarrow> (case g k of None \<Rightarrow> True | Some req \<Rightarrow> parentsAccepted g req)"
  by (cases "g k")
     (simp_all add: reqErrors_def parentsAccepted_def noParentsError_empty_iff parentError_empty_iff)

lemma link_no_error_iff:
  "fst (link ks g) = [] \<longleftrightarrow>
     (\<forall>k\<in>set ks. case g k of None \<Rightarrow> True | Some req \<Rightarrow> parentsAccepted g req)"
  by (simp add: link_char reqErrors_empty_iff)

text \<open>
  Claim C3, amended. Linking reports no error exactly when every node that declares no
  parent is at \<open>SYSTEM\<close> level and every parent a node declares is in the graph and is not
  deleted, or the node is deleted as well: the level of a parent is no part of it. In a
  graph whose resolved links do follow the order of the levels, \<open>resolveDown\<close> and
  \<open>resolveUp\<close> return from every node with a recursion no deeper than the four levels.
\<close>

theorem link_ignores_levels:
  "(fst (link ks g) = [] \<longleftrightarrow>
      (\<forall>k\<in>set ks. case g k of None \<Rightarrow> True | Some req \<Rightarrow> parentsAccepted g req))
   \<and> (levelOrdered h \<and> h r = Some q \<longrightarrow>
        (\<exists>s h'. resolveDown 4 r h = Return (s, h')) \<and> (\<exists>h'. resolveUp 4 r h = Return h'))"
  using link_no_error_iff levelOrdered_traversals_return by blast

theorem links_levelOrdered_counterexample:
  "(case link cycleKeys cycleGraph of
      (errorResult, g) \<Rightarrow> (errorResult, observe (\<lambda>q. (Level q, Parents q)) cycleKeys g))
   = ([], [Some (SYSTEM, []), Some (HIGH, [''REQ-S'', ''REQ-H2'']), Some (HIGH, [''REQ-H1''])])
   \<and> map_result (\<lambda>_. ()) (Resolve exampleSort 100 cycleKeys cycleKeys cycleKeys cycleKeys cycleGraph) = OutOfFuel"
  by code_simp

lemma cycle_never_returns:
  "Resolve srt n cycleKeys cycleKeys cycleKeys cycleKeys cycleGraph \<noteq> Return x"
proof -
  let ?g = "snd (link cycleKeys cycleGraph)"
  have e: "fst (link cycleKeys cycleGraph) = []" by code_simp
  have c: "observe (\<lambda>q. (Level q, Children q)) cycleKeys ?g =
      [Some (SYSTEM, [''REQ-H1'']), Some (HIGH, [''REQ-H2'']), Some (HIGH, [''REQ-H1''])]"
    by code_simp
  then obtain q0 q1 q2 where q: "?g ''REQ-S'' = Some q0" "Level q0 = SYSTEM" "Children q0 = [''REQ-H1'']"
      "?g ''REQ-H1'' = Some q1" "Level q1 = HIGH" "Children q1 = [''REQ-H2'']"
      "?g ''REQ-H2'' = Some q2" "Level q2 = HIGH" "Children q2 = [''REQ-H1'']"
    by (auto simp: observe_def cycleKeys_def)
  have h: "computedStatus m ?g ''REQ-H1'' = None \<and> computedStatus m ?g ''REQ-H2'' = None" for m
  proof (induction m)
    case 0
    then show ?case by simp
  next
    case (Suc m)
    then show ?case using q by simp
  qed
  have s: "computedStatus n ?g ''REQ-S'' = None"
    using h[of "n - 1"] q by (cases n) simp_all
  have "isLevel SYSTEM ?g ''REQ-S''" using q by (simp add: isLevel_def)
  then have "''REQ-S'' \<in> set (nodesAt SYSTEM cycleKeys ?g)" by (simp add: nodesAt_def cycleKeys_def)
  with s have "\<forall>y. downPass n cycleKeys ?g \<noteq> Return y" by (auto simp: downPass_Return_iff)
  then have "\<forall>y. statusPropagation srt n cycleKeys cycleKeys cycleKeys ?g \<noteq> Return y"
    by (cases "downPass n cycleKeys ?g") (auto simp: statusPropagation_def)
  then show ?thesis using e
    by (cases "statusPropagation srt n cycleKeys cycleKeys cycleKeys ?g")
       (auto simp: Resolve_def split: prod.splits)
qed

theorem link_ignores_levels_witness:
  "fst (link cycleKeys cycleGraph) = []
   \<and> (\<exists>s h'. resolveDown 4 ''REQ-S'' (snd (link exampleKeys exampleGraph)) = Return (s, h'))
   \<and> (\<exists>h'. resolveUp 4 ''REQ-S'' (snd (link exampleKeys exampleGraph)) = Return h')"
proof -
  let ?h = "snd (link exampleKeys exampleGraph)"
  have "dom ?h = dom exampleGraph" by (simp add: link_char)
  also have "\<dots> \<subseteq> set exampleKeys" by (simp add: exampleGraph_def exampleKeys_def)
  finally have d: "dom ?h \<subseteq> set exampleKeys" .
  have "levelOrderedOn exampleKeys ?h" by code_simp
  with d have lo: "levelOrdered ?h" by (rule levelOrderedOn_levelOrdered)
  have "map_option Level (?h ''REQ-S'') = Some SYSTEM" by code_simp
  then obtain q where q: "?h ''REQ-S'' = Some q" by auto
  have acc: "\<forall>k\<in>set cycleKeys. case cycleGraph k of None \<Rightarrow> True | Some req \<Rightarrow> parentsAccepted cycleGraph req"
    by code_simp
  from link_ignores_levels[of cycleKeys cycleGraph ?h "''REQ-S''" q] acc lo q
  show ?thesis by blast
qed

section \<open>Errors and edges of linking\<close>

lemma sublist_concat_map:
  "x \<in> set xs \<Longrightarrow> \<exists>a b. concat (map f xs) = a @ f x @ b"
proof (induction xs)
  case Nil
  then show ?case by simp
next
  case (Cons y ys)
  show ?case
  proof (cases "x = y")
    case True
    then have "concat (map f (y # ys)) = [] @ f x @ concat (map f ys)" by simp
    then show ?thesis by blast
  next
    case False
    with Cons obtain a b where "concat (map f ys) = a @ f x @ b" by auto
    then have "concat (map f (y # ys)) = (f y @ a) @ f x @ b" by simp
    then show ?thesis by blast
  qed
qed

lemma reqEdges_member:
  "g k = Some req \<Longrightarrow> parentId \<in> set (ParentIds req) \<Longrightarrow> g parentId \<noteq> None \<Longrightarrow>
   (k, parentId) \<in> set (reqEdges g k)"
  by (auto simp: reqEdges_def)

lemma filter_reqEdges:
  "filter (\<lambda>e. fst e = k) (reqEdges g j) = (if j = k then reqEdges g k else [])"
  by (cases "g j") (auto simp: reqEdges_def filter_empty_conv)

lemma edges_of_node:
  "distinct ks \<Longrightarrow> k \<in> set ks \<Longrightarrow>
   filter (\<lambda>e. fst e = k) (concat (map (reqEdges g) ks)) = reqEdges g k"
proof (induction ks)
  case Nil
  then show ?case by simp
next
  case (Cons j ks)
  show ?case
  proof (cases "j = k")
    case True
    then have "k \<notin> set ks" using Cons.prems(1) by simp
    then have "filter (\<lambda>e. fst e = k) (concat (map (reqEdges g) ks)) = []"
      by (induction ks) (auto simp: filter_reqEdges)
    then show ?thesis using True by (simp add: filter_reqEdges)
  next
    case False
    then show ?thesis using Cons by (simp add: filter_reqEdges)
  qed
qed

text \<open>
  Claim C4, amended. For a declared parent identifier that resolves to a node, linking
  appends the parent to the node's \<open>Parents\<close> and the node to the parent's \<open>Children\<close>,
  whether or not the parent is deleted: the node's \<open>Parents\<close> grow by the declared
  identifiers that resolve, in their order. When the parent is deleted and the node is
  not, the error text holds the message, in the variant of the node's level.
\<close>

theorem link_superseded_parent:
  assumes "g k = Some req" and "k \<in> set ks" and "parentId \<in> set (ParentIds req)"
    and "g parentId = Some parent" and "distinct ks"
  shows "(\<exists>req'. snd (link ks g) k = Some req' \<and> parentId \<in> set (Parents req')
            \<and> Parents req' = Parents req @ filter (\<lambda>p. g p \<noteq> None) (ParentIds req))
     \<and> (\<exists>parent'. snd (link ks g) parentId = Some parent' \<and> k \<in> set (Children parent'))
     \<and> (IsDeleted parent \<and> \<not> IsDeleted req \<longrightarrow>
          (\<exists>a b. fst (link ks g) = a @
             (if Level req \<noteq> CODE
              then ''Invalid parent of requirement '' @ ID req @ '': '' @ parentId @ '' is deleted.\<newline>''
              else ''Invalid reference in file '' @ Path req @ '': '' @ parentId @ '' is deleted.\<newline>'') @ b))"
proof -
  let ?es = "concat (map (reqEdges g) ks)"
  have edge: "(k, parentId) \<in> set ?es"
    using reqEdges_member[where g=g and k=k, OF assms(1,3)] assms(2,4) by auto
  have l: "link ks g = (concat (map (reqErrors g) ks), addEdges ?es g)" by (rule link_char)
  have p1: "\<exists>req'. snd (link ks g) k = Some req' \<and> parentId \<in> set (Parents req')
            \<and> Parents req' = Parents req @ filter (\<lambda>p. g p \<noteq> None) (ParentIds req)"
  proof -
    have "filter (\<lambda>e. fst e = k) ?es = reqEdges g k"
      using assms(5,2) by (rule edges_of_node)
    then have "map snd (filter (\<lambda>e. fst e = k) ?es) = filter (\<lambda>p. g p \<noteq> None) (ParentIds req)"
      using assms(1) by (simp add: reqEdges_def comp_def)
    then show ?thesis using assms(1,3,4) by (simp add: l addEdges_Some)
  qed
  have p2: "\<exists>parent'. snd (link ks g) parentId = Some parent' \<and> k \<in> set (Children parent')"
  proof -
    have "k \<in> fst ` {e \<in> set ?es. snd e = parentId}" using edge by force
    then show ?thesis using assms(4) by (simp add: l addEdges_Some)
  qed
  have p3: "\<exists>a b. fst (link ks g) = a @ deletedParentError req parentId @ b"
    if del: "IsDeleted parent \<and> \<not> IsDeleted req"
  proof -
    have pe: "parentError g req parentId = deletedParentError req parentId"
      using assms(4) del by (simp add: parentError_def)
    obtain a b where "concat (map (parentError g req) (ParentIds req)) = a @ parentError g req parentId @ b"
      using sublist_concat_map[OF assms(3)] by blast
    then have "reqErrors g k = (noParentsError req @ a) @ deletedParentError req parentId @ b"
      using assms(1) pe by (simp add: reqErrors_def)
    moreover obtain c d where "concat (map (reqErrors g) ks) = c @ reqErrors g k @ d"
      using sublist_concat_map[OF assms(2)] by blast
    ultimately have "fst (link ks g) = (c @ noParentsError req @ a) @ deletedParentError req parentId @ (b @ d)"
      by (simp add: l)
    then show ?thesis by blast
  qed
  show ?thesis using p1 p2 p3 by (simp add: deletedParentError_def)
qed

theorem link_superseded_parent_counterexample:
  "(case link deletedKeys deletedGraph of
      (errorResult, g) \<Rightarrow> (errorResult, observe Parents deletedKeys g, observe Children deletedKeys g))
   = (''Invalid parent of requirement REQ-H: REQ-D is deleted.\<newline>'' @
      ''Invalid reference in file x.go: REQ-D is deleted.\<newline>'' @
      ''Invalid reference in file x.go: REQ-X does not exist.\<newline>'',
      [Some [], Some [''REQ-D''], Some [''REQ-D'']],
      [Some [''REQ-H'', ''x.go''], Some [], Some []])"
  by code_simp

theorem link_superseded_parent_witness:
  "(\<exists>req'. snd (link deletedKeys deletedGraph) ''x.go'' = Some req' \<and> ''REQ-D'' \<in> set (Parents req')
       \<and> Parents req' = [''REQ-D''])
   \<and> (\<exists>parent'. snd (link deletedKeys deletedGraph) ''REQ-D'' = Some parent' \<and> ''x.go'' \<in> set (Children parent'))
   \<and> (\<exists>a b. fst (link deletedKeys deletedGraph) =
          a @ ''Invalid reference in file x.go: REQ-D is deleted.\<newline>'' @ b)"
proof -
  have a1: "deletedGraph ''x.go'' = Some (codeNode ''x.go'' [''REQ-D'', ''REQ-X''])"
    by (simp add: deletedGraph_def)
  have a2: "''x.go'' \<in> set deletedKeys" by (simp add: deletedKeys_def)
  have a5: "distinct deletedKeys" by (simp add: deletedKeys_def)
  have a6: "Parents (codeNode ''x.go'' [''REQ-D'', ''REQ-X'']) @
      filter (\<lambda>p. deletedGraph p \<noteq> None) (ParentIds (codeNode ''x.go'' [''REQ-D'', ''REQ-X''])) = [''REQ-D'']"
    by (simp add: codeNode_def zeroReq_def deletedGraph_def)
  have a3: "''REQ-D'' \<in> set (ParentIds (codeNode ''x.go'' [''REQ-D'', ''REQ-X'']))"
    by (simp add: codeNode_def)
  have a4: "deletedGraph ''REQ-D'' = Some (specNode ''REQ-D'' SYSTEM [] '' DELETED System\<newline>text'' 0)"
    by (simp add: deletedGraph_def)
  have d1: "IsDeleted (specNode ''REQ-D'' SYSTEM [] '' DELETED System\<newline>text'' 0)" by code_simp
  have d2: "\<not> IsDeleted (codeNode ''x.go'' [''REQ-D'', ''REQ-X''])" by code_simp
  have lv: "Level (codeNode ''x.go'' [''REQ-D'', ''REQ-X'']) = CODE" "Path (codeNode ''x.go'' [''REQ-D'', ''REQ-X'']) = ''x.go''"
    by (simp_all add: codeNode_def)
  from link_superseded_parent[where g=deletedGraph and k="''x.go''" and parentId="''REQ-D''", OF a1 a2 a3 a4 a5] d1 d2 lv a6
  show ?thesis by simp
qed

section \<open>Accumulation of the linking errors\<close>

text \<open>
  Claim C5. The error text of linking is the concatenation, over all nodes in the order of
  the loop, of every error of the node: none ends the loop. When the text is not empty,
  \<open>Resolve\<close> returns it as one error, and \<open>Seen\<close> and \<open>Status\<close> of every node are as they were.
\<close>

theorem Resolve_accumulates_errors:
  "fst (link ks1 rg) = concat (map (reqErrors rg) ks1)
   \<and> (concat (map (reqErrors rg) ks1) \<noteq> [] \<longrightarrow>
        Resolve srt n ks1 ks2 ks3 ks4 rg =
          Return (Some (Errorf (concat (map (reqErrors rg) ks1) @ ''\<newline>'') []), snd (link ks1 rg))
        \<and> flags (snd (link ks1 rg)) = flags rg)"
  by (simp add: link_char Resolve_def)

theorem Resolve_accumulates_errors_witness:
  "map_result (\<lambda>(e, g). (e, observe (\<lambda>q. (Seen q, Status q)) deletedKeys g))
     (Resolve exampleSort 4 deletedKeys deletedKeys deletedKeys deletedKeys deletedGraph)
   = Return (Some (Errorf (''Invalid parent of requirement REQ-H: REQ-D is deleted.\<newline>'' @
                           ''Invalid reference in file x.go: REQ-D is deleted.\<newline>'' @
                           ''Invalid reference in file x.go: REQ-X does not exist.\<newline>'' @ ''\<newline>'') []),
             [Some (False, NOT_STARTED), Some (False, NOT_STARTED), Some (False, NOT_STARTED)])"
proof -
  have e: "concat (map (reqErrors deletedGraph) deletedKeys) =
      ''Invalid parent of requirement REQ-H: REQ-D is deleted.\<newline>'' @
      ''Invalid reference in file x.go: REQ-D is deleted.\<newline>'' @
      ''Invalid reference in file x.go: REQ-X does not exist.\<newline>''"
    by code_simp
  have f: "observe (\<lambda>q. (Seen q, Status q)) deletedKeys deletedGraph =
      [Some (False, NOT_STARTED), Some (False, NOT_STARTED), Some (False, NOT_STARTED)]"
    by code_simp
  have o: "observe (\<lambda>q. (Seen q, Status q)) ks g = map (flags g) ks" for ks g
    by (simp add: observe_def flags_def)
  from Resolve_accumulates_errors[of deletedKeys deletedGraph exampleSort 4 deletedKeys deletedKeys deletedKeys]
  show ?thesis using e f by (simp add: o)
qed

section \<open>Order of the links and position of the code nodes\<close>

lemma positionOf_markDown [simp]: "positionOf (markDown n g D) = positionOf g"
proof
  fix p show "positionOf (markDown n g D) p = positionOf g p"
    by (cases "g p") (auto simp: positionOf_def markDown_def)
qed










section \<open>Duplicate identifiers\<close>

lemma AddReq_duplicate:
  "rg (lyxID req) = Some v \<Longrightarrow>
   AddReq ReqType RepoPath rg req path =
     Inr (Some (Errorf ''Requirement %s in %s already defined in %s''
                  [Str (lyxID req), Str path, Str (Path v)]), rg, req)"
  by (simp add: AddReq_def)

text \<open>
  Claim C6. \<open>AddReq\<close> rejects a record whose identifier is in the graph (lemma
  \<open>AddReq_duplicate\<close>), but \<open>ParseLyx\<close> drops what \<open>AddReq\<close> returns: after a first file
  has defined \<open>REQ-0-DDLN-SWH-001\<close>, parsing a second file that defines it again
  returns no error, and the graph keeps the node of the first file.
\<close>

theorem ParseLyx_drops_duplicate_error:
  "(case exampleParseLyx ''/repo/a.lyx'' Map.empty of
      Inl f \<Rightarrow> None
    | Inr (errs1, g1) \<Rightarrow>
        (case exampleParseLyx ''/repo/b.lyx'' g1 of
           Inl f \<Rightarrow> None
         | Inr (errs2, g2) \<Rightarrow>
             Some (errs1, observe Path [''REQ-0-DDLN-SWH-001''] g1,
                   errs2, observe (\<lambda>q. (Path q, Body q)) [''REQ-0-DDLN-SWH-001''] g2,
                   map_sum id (\<lambda>(e, g, r). e)
                     (AddReq (\<lambda>r. ''SWH'') ''/repo'' g1 (duplicateRecord ''/repo/b.lyx'') ''/repo/b.lyx''))))
   = Some ([], [Some ''/a.lyx''],
           [], [Some (''/a.lyx'', ''Title of /repo/a.lyx'')],
           Inr (Some (Errorf ''Requirement %s in %s already defined in %s''
                        [Str ''REQ-0-DDLN-SWH-001'', Str ''/repo/b.lyx'', Str ''/a.lyx''])))"
  by code_simp

section \<open>Attribute checks\<close>

lemma foldFatal_append:
  assumes "\<And>x s s'. x \<in> set xs \<Longrightarrow> f x s = Inr s' \<Longrightarrow> s' = s @ g x"
  shows "foldFatal f xs s = Inr s' \<Longrightarrow> s' = s @ concat (map g xs)"
  using assms
proof (induction xs arbitrary: s)
  case Nil
  then show ?case by simp
next
  case (Cons x xs)
  from Cons.prems(1) obtain s1 where s1: "f x s = Inr s1" "foldFatal f xs s1 = Inr s'"
    by (cases "f x s") auto
  have "s1 = s @ g x" using Cons.prems(2) s1(1) by simp
  moreover have "s' = s1 @ concat (map g xs)"
    using Cons.IH[OF s1(2)] Cons.prems(2) by simp
  ultimately show ?case by simp
qed

lemma checkEntry_append:
  "checkEntry ToUpper Compile r a kv errs = Inr errs' \<Longrightarrow>
   errs' = errs @ entryErrors ToUpper Compile r a kv"
  by (cases kv)
     (auto simp: checkEntry_def entryErrors_def missingAttributeError_def invalidValueError_def
        Let_def split: if_splits option.splits sum.splits)

lemma checkEntry_compiles:
  "checkEntry ToUpper Compile r a (k, v) errs = Inr errs' \<Longrightarrow> k = ''value'' \<Longrightarrow>
   Attributes r (ToUpper (lookupOrEmpty a ''name'')) = Some x \<Longrightarrow> \<exists>expr. Compile v = Inr expr"
  by (auto simp: checkEntry_def Let_def split: if_splits option.splits sum.splits)


lemma attributeErrors_missingI:
  "a \<in> set as \<Longrightarrow> (''name'', v) \<in> set a \<Longrightarrow> Attributes r (ToUpper v) = None \<Longrightarrow>
   \<not> (Level r = SYSTEM \<and> ToUpper v = ''PARENTS'') \<Longrightarrow>
   missingAttributeError r v \<in> attributeErrors ToUpper Compile r as"
  unfolding attributeErrors_def by blast

lemma attributeErrors_invalidI:
  "a \<in> set as \<Longrightarrow> (''value'', v) \<in> set a \<Longrightarrow>
   Attributes r (ToUpper (lookupOrEmpty a ''name'')) = Some x \<Longrightarrow> Compile v = Inr expr \<Longrightarrow> \<not> expr x \<Longrightarrow>
   invalidValueError r x (ToUpper (lookupOrEmpty a ''name'')) v \<in> attributeErrors ToUpper Compile r as"
  unfolding attributeErrors_def by blast

lemma attributeErrors_cases:
  assumes "e \<in> attributeErrors ToUpper Compile r as"
  obtains (missing) a v where "a \<in> set as" "(''name'', v) \<in> set a" "Attributes r (ToUpper v) = None"
        "\<not> (Level r = SYSTEM \<and> ToUpper v = ''PARENTS'')" "e = missingAttributeError r v"
  | (invalid) a v x expr where "a \<in> set as" "(''value'', v) \<in> set a"
        "Attributes r (ToUpper (lookupOrEmpty a ''name'')) = Some x" "Compile v = Inr expr" "\<not> expr x"
        "e = invalidValueError r x (ToUpper (lookupOrEmpty a ''name'')) v"
  using assms unfolding attributeErrors_def by blast

lemma set_entryErrors:
  "(\<Union>kv\<in>set a. set (entryErrors ToUpper Compile r a kv)) = attributeErrors ToUpper Compile r [a]"
proof (intro set_eqI iffI)
  fix e assume "e \<in> (\<Union>kv\<in>set a. set (entryErrors ToUpper Compile r a kv))"
  then obtain k v where kv: "(k, v) \<in> set a" "e \<in> set (entryErrors ToUpper Compile r a (k, v))"
    by auto
  have ain: "a \<in> set [a]" by simp
  show "e \<in> attributeErrors ToUpper Compile r [a]"
  proof (cases "k = ''name''")
    case True
    with kv(2) have m: "Attributes r (ToUpper v) = None" "\<not> (Level r = SYSTEM \<and> ToUpper v = ''PARENTS'')"
      "e = missingAttributeError r v"
      by (auto simp: entryErrors_def split: if_splits)
    have "(''name'', v) \<in> set a" using kv(1) True by simp
    then have "missingAttributeError r v \<in> attributeErrors ToUpper Compile r [a]"
      using m(1,2) by (rule attributeErrors_missingI[where a=a and ToUpper=ToUpper, OF ain])
    then show ?thesis using m(3) by simp
  next
    case False
    have v: "k = ''value''"
    proof (rule ccontr)
      assume "k \<noteq> ''value''"
      with False kv(2) show False by (simp add: entryErrors_def)
    qed
    have ee: "e \<in> set (case Attributes r (ToUpper (lookupOrEmpty a ''name'')) of
                None \<Rightarrow> []
              | Some x \<Rightarrow>
                  (case Compile v of
                     Inl err \<Rightarrow> []
                   | Inr expr \<Rightarrow>
                       if \<not> expr x
                       then [invalidValueError r x (ToUpper (lookupOrEmpty a ''name'')) v]
                       else []))"
      using kv(2) v by (simp add: entryErrors_def)
    then obtain x where x: "Attributes r (ToUpper (lookupOrEmpty a ''name'')) = Some x"
      by (cases "Attributes r (ToUpper (lookupOrEmpty a ''name''))") auto
    with ee obtain expr where expr: "Compile v = Inr expr"
      by (cases "Compile v") auto
    with ee x have i3: "\<not> expr x" "e = invalidValueError r x (ToUpper (lookupOrEmpty a ''name'')) v"
      by (auto split: if_splits)
    note i = x expr i3
    have "(''value'', v) \<in> set a" using kv(1) v by simp
    then have "invalidValueError r x (ToUpper (lookupOrEmpty a ''name'')) v \<in> attributeErrors ToUpper Compile r [a]"
      using i(1,2,3) by (rule attributeErrors_invalidI[where a=a and ToUpper=ToUpper and Compile=Compile, OF ain])
    then show ?thesis using i(4) by simp
  qed
next
  fix e assume "e \<in> attributeErrors ToUpper Compile r [a]"
  then show "e \<in> (\<Union>kv\<in>set a. set (entryErrors ToUpper Compile r a kv))"
  proof (cases rule: attributeErrors_cases)
    case (missing a' v)
    then have "e \<in> set (entryErrors ToUpper Compile r a (''name'', v))"
      by (simp add: entryErrors_def)
    with missing(1,2) show ?thesis by force
  next
    case (invalid a' v x expr)
    then have "e \<in> set (entryErrors ToUpper Compile r a (''value'', v))"
      by (simp add: entryErrors_def)
    with invalid(1,2) show ?thesis by force
  qed
qed

lemma attributeErrors_Union:
  "attributeErrors ToUpper Compile r as = (\<Union>a\<in>set as. attributeErrors ToUpper Compile r [a])"
proof (intro set_eqI iffI)
  fix e assume "e \<in> attributeErrors ToUpper Compile r as"
  then show "e \<in> (\<Union>a\<in>set as. attributeErrors ToUpper Compile r [a])"
  proof (cases rule: attributeErrors_cases)
    case (missing a v)
    have "a \<in> set [a]" by simp
    then have "missingAttributeError r v \<in> attributeErrors ToUpper Compile r [a]"
      using missing(2,3,4) by (rule attributeErrors_missingI[where ToUpper=ToUpper])
    with missing(1,5) show ?thesis by blast
  next
    case (invalid a v x expr)
    have "a \<in> set [a]" by simp
    then have "invalidValueError r x (ToUpper (lookupOrEmpty a ''name'')) v \<in> attributeErrors ToUpper Compile r [a]"
      using invalid(2,3,4,5) by (rule attributeErrors_invalidI[where ToUpper=ToUpper and Compile=Compile])
    with invalid(1,6) show ?thesis by blast
  qed
next
  fix e assume "e \<in> (\<Union>a\<in>set as. attributeErrors ToUpper Compile r [a])"
  then obtain a where a: "a \<in> set as" "e \<in> attributeErrors ToUpper Compile r [a]" by blast
  from a(2) show "e \<in> attributeErrors ToUpper Compile r as"
  proof (cases rule: attributeErrors_cases)
    case (missing a' v)
    then have "a' = a" by simp
    with missing have "(''name'', v) \<in> set a" by simp
    with a(1) have "missingAttributeError r v \<in> attributeErrors ToUpper Compile r as"
      using missing(3,4) by (rule attributeErrors_missingI[where ToUpper=ToUpper])
    with missing(5) show ?thesis by simp
  next
    case (invalid a' v x expr)
    then have e: "a' = a" by simp
    with invalid have "(''value'', v) \<in> set a" by simp
    with a(1) have "invalidValueError r x (ToUpper (lookupOrEmpty a ''name'')) v \<in> attributeErrors ToUpper Compile r as"
      using invalid(3,4,5) unfolding e by (rule attributeErrors_invalidI[where ToUpper=ToUpper and Compile=Compile])
    with invalid(6) e show ?thesis by simp
  qed
qed

lemma Req_CheckAttributes_errors:
  assumes "Req_CheckAttributes ToUpper Compile r as = Inr errs"
  shows "errs = concat (map (\<lambda>a. concat (map (entryErrors ToUpper Compile r a) a)) as)"
    and "set errs = attributeErrors ToUpper Compile r as"
proof -
  have "errs = [] @ concat (map (\<lambda>a. concat (map (entryErrors ToUpper Compile r a) a)) as)"
  proof (rule foldFatal_append[where f="\<lambda>a. foldFatal (checkEntry ToUpper Compile r a) a"])
    show "foldFatal (\<lambda>a. foldFatal (checkEntry ToUpper Compile r a) a) as [] = Inr errs"
      using assms by (simp add: Req_CheckAttributes_def)
  next
    fix a s s'
    assume "a \<in> set as" "foldFatal (checkEntry ToUpper Compile r a) a s = Inr s'"
    then show "s' = s @ concat (map (entryErrors ToUpper Compile r a) a)"
      using foldFatal_append[where f="checkEntry ToUpper Compile r a" and g="entryErrors ToUpper Compile r a"]
        checkEntry_append by blast
  qed
  then show e: "errs = concat (map (\<lambda>a. concat (map (entryErrors ToUpper Compile r a) a)) as)" by simp
  show "set errs = attributeErrors ToUpper Compile r as"
    unfolding e attributeErrors_Union[of ToUpper Compile r as]
    by (simp add: set_entryErrors)
qed

text \<open>
  Claim C9. When \<open>CheckAttributes\<close> returns (no expression of the schema fails to
  compile), the errors it returns are, for every node that is not a code node, one for
  each rule name whose attribute the node lacks, unless the node is at \<open>SYSTEM\<close> level and
  the attribute is \<open>PARENTS\<close>, and one for each value expression that the node's attribute
  of the rule does not match, holding the expression; and no others.
\<close>

theorem CheckAttributes_errors:
  assumes "reqGraph_CheckAttributes ToUpper Compile ks rg as = Inr errs"
  shows "set errs =
     (\<Union>k\<in>set ks. case rg k of
                    None \<Rightarrow> {}
                  | Some r \<Rightarrow> if Level r \<noteq> CODE then attributeErrors ToUpper Compile r as else {})"
proof -
  let ?f = "\<lambda>k errs. case rg k of
            None \<Rightarrow> Inr errs
          | Some req \<Rightarrow>
              if Level req \<noteq> CODE
              then (case Req_CheckAttributes ToUpper Compile req as of
                      Inl f \<Rightarrow> Inl f
                    | Inr es \<Rightarrow> Inr (errs @ es))
              else Inr errs"
  let ?g = "\<lambda>k. case rg k of
            None \<Rightarrow> []
          | Some r \<Rightarrow> if Level r \<noteq> CODE
              then concat (map (\<lambda>a. concat (map (entryErrors ToUpper Compile r a) a)) as) else []"
  have "errs = [] @ concat (map ?g ks)"
  proof (rule foldFatal_append[where f="?f"])
    show "foldFatal ?f ks [] = Inr errs" using assms by (simp add: reqGraph_CheckAttributes_def)
  next
    fix k s s'
    assume "k \<in> set ks" "?f k s = Inr s'"
    then show "s' = s @ ?g k"
      using Req_CheckAttributes_errors(1)[of ToUpper Compile _ as]
      by (auto split: option.splits if_splits sum.splits)
  qed
  then have "set errs = (\<Union>k\<in>set ks. set (?g k))" by simp
  also have "\<dots> = (\<Union>k\<in>set ks. case rg k of
                    None \<Rightarrow> {}
                  | Some r \<Rightarrow> if Level r \<noteq> CODE then attributeErrors ToUpper Compile r as else {})"
  proof (rule SUP_cong[OF refl])
    fix k
    show "set (?g k) = (case rg k of None \<Rightarrow> {}
                  | Some r \<Rightarrow> if Level r \<noteq> CODE then attributeErrors ToUpper Compile r as else {})"
    proof (cases "rg k")
      case None
      then show ?thesis by simp
    next
      case (Some r)
      have "set (concat (map (\<lambda>a. concat (map (entryErrors ToUpper Compile r a) a)) as))
          = attributeErrors ToUpper Compile r as"
        unfolding attributeErrors_Union[of ToUpper Compile r as] by (simp add: set_entryErrors)
      with Some show ?thesis by simp
    qed
  qed
  finally show ?thesis .
qed

theorem CheckAttributes_errors_witness:
  "reqGraph_CheckAttributes asciiToUpper digitsCompile attributeKeys attributeGraph exampleSchema
     = Inr [Errorf ''Requirement '%s' is missing attribute '%s'.\<newline>'' [Str ''REQ-H'', Str ''Rationale''],
            Errorf ''Requirement '%s' has invalid value '%s' in attribute '%s'. Expected %s.\<newline>''
              [Str ''REQ-H'', Str ''none'', Str ''VERIFICATION'', Str ''[0-9]+'']]
   \<and> set [Errorf ''Requirement '%s' is missing attribute '%s'.\<newline>'' [Str ''REQ-H'', Str ''Rationale''],
           Errorf ''Requirement '%s' has invalid value '%s' in attribute '%s'. Expected %s.\<newline>''
              [Str ''REQ-H'', Str ''none'', Str ''VERIFICATION'', Str ''[0-9]+'']]
     = (\<Union>k\<in>set attributeKeys. case attributeGraph k of
                    None \<Rightarrow> {}
                  | Some r \<Rightarrow> if Level r \<noteq> CODE
                      then attributeErrors asciiToUpper digitsCompile r exampleSchema else {})"
proof -
  have ev: "reqGraph_CheckAttributes asciiToUpper digitsCompile attributeKeys attributeGraph exampleSchema
     = Inr [Errorf ''Requirement '%s' is missing attribute '%s'.\<newline>'' [Str ''REQ-H'', Str ''Rationale''],
            Errorf ''Requirement '%s' has invalid value '%s' in attribute '%s'. Expected %s.\<newline>''
              [Str ''REQ-H'', Str ''none'', Str ''VERIFICATION'', Str ''[0-9]+'']]"
    by code_simp
  from CheckAttributes_errors[OF ev] ev show ?thesis by blast
qed

section \<open>BodyWithoutTitle\<close>

lemma BodyWithoutTitle_Inr_iff:
  "BodyWithoutTitle r = Inr s \<longleftrightarrow> (\<exists>t. Body r = t @ CHR 0x0A # s \<and> CHR 0x0A \<notin> set t)"
proof
  assume a: "BodyWithoutTitle r = Inr s"
  then have nl: "CHR 0x0A \<in> set (Body r)" by (auto simp: BodyWithoutTitle_def split: if_splits)
  let ?t = "takeWhile (\<lambda>c. c \<noteq> CHR 0x0A) (Body r)"
  let ?d = "dropWhile (\<lambda>c. c \<noteq> CHR 0x0A) (Body r)"
  have s: "s = tl ?d" using a nl by (simp add: BodyWithoutTitle_def)
  have "?d \<noteq> []" using nl by auto
  moreover have "hd ?d = CHR 0x0A" using nl hd_dropWhile[of "\<lambda>c. c \<noteq> CHR 0x0A" "Body r"] by auto
  ultimately have "?d = CHR 0x0A # s" using s by (cases ?d) auto
  then have "Body r = ?t @ CHR 0x0A # s" using takeWhile_dropWhile_id[of "\<lambda>c. c \<noteq> CHR 0x0A" "Body r"] by simp
  moreover have "CHR 0x0A \<notin> set ?t" by (auto dest: set_takeWhileD)
  ultimately show "\<exists>t. Body r = t @ CHR 0x0A # s \<and> CHR 0x0A \<notin> set t" by blast
next
  assume "\<exists>t. Body r = t @ CHR 0x0A # s \<and> CHR 0x0A \<notin> set t"
  then obtain t where t: "Body r = t @ CHR 0x0A # s" "CHR 0x0A \<notin> set t" by blast
  then have "dropWhile (\<lambda>c. c \<noteq> CHR 0x0A) (Body r) = CHR 0x0A # s"
    by (auto simp: dropWhile_append3)
  then show "BodyWithoutTitle r = Inr s" using t by (simp add: BodyWithoutTitle_def)
qed

text \<open>
  Claim C10. A body with no newline makes \<open>BodyWithoutTitle\<close> end the process through
  \<open>log.Fatal\<close>; it returns \<open>s\<close> exactly when the body is a first line, a newline and \<open>s\<close>.
\<close>

theorem BodyWithoutTitle_fatal_or_rest:
  "(CHR 0x0A \<notin> set (Body r) \<longrightarrow>
      BodyWithoutTitle r = Inl (Fatal [Str ''No valid title in body of requirement with id: '', Str (ID r)]))
   \<and> (BodyWithoutTitle r = Inr s \<longleftrightarrow> (\<exists>t. Body r = t @ CHR 0x0A # s \<and> CHR 0x0A \<notin> set t))"
  using BodyWithoutTitle_Inr_iff by (simp add: BodyWithoutTitle_def)

theorem BodyWithoutTitle_fatal_or_rest_witness:
  "BodyWithoutTitle (zeroReq\<lparr>ID := ''REQ-1'', Body := ''Title only''\<rparr>) =
      Inl (Fatal [Str ''No valid title in body of requirement with id: '', Str ''REQ-1''])
   \<and> BodyWithoutTitle (zeroReq\<lparr>ID := ''REQ-2'', Body := ''Title\<newline>line 2\<newline>line 3''\<rparr>) = Inr ''line 2\<newline>line 3''"
proof -
  have h1: "CHR 0x0A \<notin> set (Body (zeroReq\<lparr>ID := ''REQ-1'', Body := ''Title only''\<rparr>))" by simp
  have h2: "\<exists>t. Body (zeroReq\<lparr>ID := ''REQ-2'', Body := ''Title\<newline>line 2\<newline>line 3''\<rparr>) = t @ CHR 0x0A # ''line 2\<newline>line 3'' \<and> CHR 0x0A \<notin> set t"
    by (rule exI[of _ "''Title''"]) simp
  from BodyWithoutTitle_fatal_or_rest[of "zeroReq\<lparr>ID := ''REQ-1'', Body := ''Title only''\<rparr>" "[]"] h1
  have a: "BodyWithoutTitle (zeroReq\<lparr>ID := ''REQ-1'', Body := ''Title only''\<rparr>) =
      Inl (Fatal [Str ''No valid title in body of requirement with id: '', Str ''REQ-1''])" by simp
  from BodyWithoutTitle_fatal_or_rest[of "zeroReq\<lparr>ID := ''REQ-2'', Body := ''Title\<newline>line 2\<newline>line 3''\<rparr>" "''line 2\<newline>line 3''"] h2
  have b: "BodyWithoutTitle (zeroReq\<lparr>ID := ''REQ-2'', Body := ''Title\<newline>line 2\<newline>line 3''\<rparr>) = Inr ''line 2\<newline>line 3''"
    by blast
  from a b show ?thesis by blast
qed

end
